theory Spec2Isabelle
  imports Complex_Main "HOL-Library.Word"
begin

unbundle bit_operations_syntax

section \<open>MSNumpress: data model\<close>

text \<open>
  The C++ source works on \<open>unsigned char\<close> buffers, 32-bit \<open>int\<close> and
  \<open>unsigned int\<close> values, and \<open>double\<close> arrays.  Bytes are \<open>8 word\<close>,
  both 32-bit integer types are \<open>32 word\<close> (signedness only matters where a value is
  shifted right or converted to \<open>double\<close>; there \<open>signed_drop_bit\<close> and \<open>sint\<close> are
  written out), and \<open>unsigned short\<close> is \<open>16 word\<close>.  Arithmetic on \<open>32 word\<close> wraps
  around, as the compiled code does.

  A \<open>double\<close> is idealised as a \<open>real\<close>: \<open>data[i] * 100000 + 0.5\<close> and
  \<open>y / 100000.0\<close> are computed exactly.  The conversion of a \<open>double\<close> to an integer
  type discards the fraction (truncation toward zero) and keeps the low bits.
\<close>

type_synonym u8 = "8 word"
type_synonym u16 = "16 word"
type_synonym u32 = "32 word"
type_synonym u64 = "64 word"
type_synonym double = real

text \<open>
  \<open>operator[]\<close> on a pointer or on a \<open>std::vector\<close> is unchecked.  An access outside
  the array is undefined behaviour in C++; the model stops there and returns the
  offending access as a \<open>fault\<close>.  No C++ exception is thrown by such an access.
\<close>

datatype fault = ReadOutOfBounds nat | WriteOutOfBounds nat

definition rd :: "'a list \<Rightarrow> nat \<Rightarrow> fault + 'a" where
  "rd xs i = (if i < length xs then Inr (xs ! i) else Inl (ReadOutOfBounds i))"

definition wr :: "'a list \<Rightarrow> nat \<Rightarrow> 'a \<Rightarrow> fault + 'a list" where
  "wr xs i v = (if i < length xs then Inr (xs[i := v]) else Inl (WriteOutOfBounds i))"

text \<open>The cast of a \<open>double\<close> to an integer type.\<close>

definition trunc_toward_zero :: "real \<Rightarrow> int" where
  "trunc_toward_zero r = (if 0 \<le> r then \<lfloor>r\<rfloor> else \<lceil>r\<rceil>)"

definition double_to_uint :: "double \<Rightarrow> u32" where
  "double_to_uint r = word_of_int (trunc_toward_zero r)"

definition double_to_size_t :: "double \<Rightarrow> u64" where
  "double_to_size_t r = word_of_int (trunc_toward_zero r)"

definition double_to_ushort :: "double \<Rightarrow> u16" where
  "double_to_ushort r = word_of_int (trunc_toward_zero r)"

definition int_to_double :: "u32 \<Rightarrow> double" where
  "int_to_double y = real_of_int (sint y)"

section \<open>encodeInt\<close>

text \<open>\<open>int mask = 0xf0000000\<close>; \<open>mask >> (4*i)\<close> is an arithmetic shift.\<close>

definition mask_f :: u32 where
  "mask_f = 0xf0000000"

definition shifted_mask :: "nat \<Rightarrow> u32" where
  "shifted_mask i = signed_drop_bit (4 * i) mask_f"

text \<open>
  The two scanning loops \<open>for (i=0; i<8; i++) { m = mask >> (4*i); if (...) { l = i; break; } }\<close>
  with their defaults \<open>l = 8\<close> and \<open>l = 7\<close>.
\<close>

definition zero_run :: "u32 \<Rightarrow> nat" where
  "zero_run x =
     (case find (\<lambda>i. x AND shifted_mask i \<noteq> 0) [0..<8] of
        Some i \<Rightarrow> i
      | None \<Rightarrow> 8)"

definition one_run :: "u32 \<Rightarrow> nat" where
  "one_run x =
     (case find (\<lambda>i. x AND shifted_mask i \<noteq> shifted_mask i) [0..<8] of
        Some i \<Rightarrow> i
      | None \<Rightarrow> 7)"

text \<open>
  \<open>res[1+i-l] = x >> (4*(i-l))\<close> for \<open>i = l, ..., 7\<close>: the shifted \<open>int\<close> is stored in
  an \<open>unsigned char\<close>, which keeps its low eight bits.
\<close>

definition rest_halfbytes :: "u32 \<Rightarrow> nat \<Rightarrow> u8 list" where
  "rest_halfbytes x l = map (\<lambda>i. ucast (signed_drop_bit (4 * (i - l)) x)) [l..<8]"

text \<open>The \<open>l\<close> of the branch that \<open>encodeInt\<close> takes.\<close>

definition encodeInt_l :: "u32 \<Rightarrow> nat" where
  "encodeInt_l x =
     (let init = x AND mask_f in
      if init = 0 then zero_run x
      else if init = mask_f then one_run x
      else 0)"

text \<open>
  \<open>encodeInt x\<close> is the list of bytes written to \<open>res[0]\<close>, \<open>res[1]\<close>, ...;
  \<open>*res_length\<close> grows by its length.  Only the low four bits of each byte reach the
  output of the codecs.
\<close>

definition encodeInt :: "u32 \<Rightarrow> u8 list" where
  "encodeInt x =
     (let init = x AND mask_f in
      if init = 0 then
        (let l = zero_run x in word_of_nat l # rest_halfbytes x l)
      else if init = mask_f then
        (let l = one_run x in word_of_nat (l + 8) # rest_halfbytes x l)
      else 0 # rest_halfbytes x 0)"

section \<open>decodeInt\<close>

text \<open>
  Reading one half byte: the block
  \<open>if (*half == 0) hb = data[*di] >> 4; else { hb = data[*di] & 0xf; (*di)++; }\<close>
  followed by \<open>*half = 1 - *half\<close>, which the source has once for the head and once in
  the loop.
\<close>

definition read_halfbyte :: "u8 list \<Rightarrow> nat \<Rightarrow> int \<Rightarrow> fault + (u8 \<times> nat \<times> int)" where
  "read_halfbyte data di half =
     (case rd data di of
        Inl f \<Rightarrow> Inl f
      | Inr b \<Rightarrow>
          if half = 0 then Inr (drop_bit 4 b, di, 1 - half)
          else Inr (b AND 0xf, di + 1, 1 - half))"

text \<open>\<open>for (i=0; i<n; i++) { m = mask >> (4*i); *res = *res | m; }\<close>\<close>

definition fill_ones :: "nat \<Rightarrow> u32 \<Rightarrow> u32" where
  "fill_ones n res = fold (\<lambda>i r. r OR shifted_mask i) [0..<n] res"

text \<open>\<open>for (i=n; i<8; i++)\<close>, as a recursion over the indices \<open>[n..<8]\<close>.\<close>

fun decodeInt_loop :: "u8 list \<Rightarrow> nat \<Rightarrow> nat list \<Rightarrow> nat \<times> int \<times> u32 \<Rightarrow> fault + (nat \<times> int \<times> u32)" where
  "decodeInt_loop data n [] s = Inr s"
| "decodeInt_loop data n (i # is) (di, half, res) =
     (case read_halfbyte data di half of
        Inl f \<Rightarrow> Inl f
      | Inr (hb, di', half') \<Rightarrow>
          decodeInt_loop data n is (di', half', res OR push_bit ((i - n) * 4) (ucast hb)))"

text \<open>\<open>decodeInt data di half\<close> returns the new \<open>*di\<close>, the new \<open>*half\<close> and \<open>*res\<close>.\<close>

definition decodeInt :: "u8 list \<Rightarrow> nat \<Rightarrow> int \<Rightarrow> fault + (nat \<times> int \<times> u32)" where
  "decodeInt data di half =
     (case read_halfbyte data di half of
        Inl f \<Rightarrow> Inl f
      | Inr (head, di', half') \<Rightarrow>
          (let n = (if head \<le> 8 then unat head else unat head - 8);
               res = (if head \<le> 8 then 0 else fill_ones n 0)
           in if n = 8 then Inr (di', half', res)
              else decodeInt_loop data n [n..<8] (di', half', res)))"

text \<open>
  The half-byte stream of a byte buffer: two half bytes per byte, the high one first.
  Position \<open>2 * di + half\<close> of the stream is what \<open>decodeInt\<close> reads in state
  \<open>(di, half)\<close>.
\<close>

definition nibbles :: "u8 list \<Rightarrow> u8 list" where
  "nibbles data = concat (map (\<lambda>b. [drop_bit 4 b, b AND 0xf]) data)"

section \<open>encodeLinear and encodeCount\<close>

text \<open>
  The encoders take a pointer \<open>data\<close>, a count \<open>dataSize\<close> and a pointer \<open>result\<close>.
  The model takes the arrays behind the two pointers as lists, so that an index beyond
  the array is a \<open>fault\<close>, and returns the array behind \<open>result\<close> together with
  \<open>*resultByteCount\<close>.

  \<open>for (i=0; i<4; i++) { result[0+i] = (ints[1] >> (i*8)) & 0xff;
  result[4+i] = (ints[2] >> (i*8)) & 0xff; }\<close> on \<open>unsigned int ints[3]\<close>.
\<close>

fun encodeLinear_header :: "u8 list \<Rightarrow> u32 \<Rightarrow> u32 \<Rightarrow> nat list \<Rightarrow> fault + u8 list" where
  "encodeLinear_header result ints1 ints2 [] = Inr result"
| "encodeLinear_header result ints1 ints2 (i # is) =
     (case wr result (0 + i) (ucast (drop_bit (i * 8) ints1 AND 0xff)) of
        Inl f \<Rightarrow> Inl f
      | Inr result1 \<Rightarrow>
          (case wr result1 (4 + i) (ucast (drop_bit (i * 8) ints2 AND 0xff)) of
             Inl f \<Rightarrow> Inl f
           | Inr result2 \<Rightarrow> encodeLinear_header result2 ints1 ints2 is))"

text \<open>
  \<open>halfBytes\<close> is modelled by its first \<open>halfByteCount\<close> entries, so that
  \<open>halfByteCount\<close> is its length (at most 10, the size of the C array).

  \<open>for (hbi=1; hbi < halfByteCount; hbi+=2) { result[ri] = (halfBytes[hbi-1] << 4) |
  (halfBytes[hbi] & 0xf); ri++; }\<close>
\<close>

function pack_halfbytes :: "u8 list \<Rightarrow> nat \<Rightarrow> u8 list \<Rightarrow> nat \<Rightarrow> fault + (u8 list \<times> nat)" where
  "pack_halfbytes halfBytes hbi result ri =
     (if hbi < length halfBytes then
        (case wr result ri (push_bit 4 (halfBytes ! (hbi - 1)) OR (halfBytes ! hbi AND 0xf)) of
           Inl f \<Rightarrow> Inl f
         | Inr result' \<Rightarrow> pack_halfbytes halfBytes (hbi + 2) result' (ri + 1))
      else Inr (result, ri))"
  by pat_completeness auto
termination
  by (relation "measure (\<lambda>(halfBytes, hbi, result, ri). length halfBytes - hbi)") auto

declare pack_halfbytes.simps [simp del]

text \<open>
  \<open>if (halfByteCount % 2 != 0) { halfBytes[0] = halfBytes[halfByteCount-1]; halfByteCount = 1; }
  else halfByteCount = 0;\<close>
\<close>

definition carry_halfbyte :: "u8 list \<Rightarrow> u8 list" where
  "carry_halfbyte halfBytes =
     (if length halfBytes mod 2 \<noteq> 0 then [halfBytes ! (length halfBytes - 1)] else [])"

text \<open>
  \<open>if (halfByteCount == 1) { result[ri] = halfBytes[0] << 4; ri++; }
  *resultByteCount = ri;\<close>
\<close>

definition flush_halfbyte :: "u8 list \<Rightarrow> u8 list \<Rightarrow> nat \<Rightarrow> fault + (u8 list \<times> nat)" where
  "flush_halfbyte halfBytes result ri =
     (if length halfBytes = 1 then
        (case wr result ri (push_bit 4 (halfBytes ! 0)) of
           Inl f \<Rightarrow> Inl f
         | Inr result' \<Rightarrow> Inr (result', ri + 1))
      else Inr (result, ri))"

text \<open>The loop \<open>for (i=2; i<dataSize; i++)\<close>, as a recursion over the indices.\<close>

fun encodeLinear_loop ::
  "double list \<Rightarrow> nat list \<Rightarrow> u32 \<times> u32 \<times> u8 list \<times> u8 list \<times> nat \<Rightarrow> fault + (u8 list \<times> u8 list \<times> nat)" where
  "encodeLinear_loop data [] (ints1, ints2, halfBytes, result, ri) = Inr (halfBytes, result, ri)"
| "encodeLinear_loop data (i # is) (ints1, ints2, halfBytes, result, ri) =
     (case rd data i of
        Inl f \<Rightarrow> Inl f
      | Inr d \<Rightarrow>
          (let ints0 = ints1;
               ints1' = ints2;
               ints2' = double_to_uint (d * 100000 + 0.5);
               extrapol = ints1' + (ints1' - ints0);
               diff = ints2' - extrapol;
               halfBytes' = halfBytes @ encodeInt diff
           in case pack_halfbytes halfBytes' 1 result ri of
                Inl f \<Rightarrow> Inl f
              | Inr (result', ri') \<Rightarrow>
                  encodeLinear_loop data is (ints1', ints2', carry_halfbyte halfBytes', result', ri')))"

definition encodeLinear :: "double list \<Rightarrow> nat \<Rightarrow> u8 list \<Rightarrow> fault + (u8 list \<times> nat)" where
  "encodeLinear data dataSize result =
     (case rd data 0 of
        Inl f \<Rightarrow> Inl f
      | Inr d0 \<Rightarrow>
     (case rd data 1 of
        Inl f \<Rightarrow> Inl f
      | Inr d1 \<Rightarrow>
          (let ints1 = double_to_uint (d0 * 100000 + 0.5);
               ints2 = double_to_uint (d1 * 100000 + 0.5)
           in case encodeLinear_header result ints1 ints2 [0..<4] of
                Inl f \<Rightarrow> Inl f
              | Inr result1 \<Rightarrow>
             (case encodeLinear_loop data [2..<dataSize] (ints1, ints2, [], result1, 8) of
                Inl f \<Rightarrow> Inl f
              | Inr (halfBytes, result2, ri) \<Rightarrow> flush_halfbyte halfBytes result2 ri))))"

text \<open>
  \<open>encodeCount\<close>: \<open>count = data[i] + 0.5\<close> with \<open>size_t count\<close>, passed to the
  \<open>int\<close> parameter of \<open>encodeInt\<close>, which keeps the low 32 bits.
\<close>

fun encodeCount_loop ::
  "double list \<Rightarrow> nat list \<Rightarrow> u8 list \<times> u8 list \<times> nat \<Rightarrow> fault + (u8 list \<times> u8 list \<times> nat)" where
  "encodeCount_loop data [] (halfBytes, result, ri) = Inr (halfBytes, result, ri)"
| "encodeCount_loop data (i # is) (halfBytes, result, ri) =
     (case rd data i of
        Inl f \<Rightarrow> Inl f
      | Inr d \<Rightarrow>
          (let count = double_to_size_t (d + 0.5);
               halfBytes' = halfBytes @ encodeInt (ucast count)
           in case pack_halfbytes halfBytes' 1 result ri of
                Inl f \<Rightarrow> Inl f
              | Inr (result', ri') \<Rightarrow>
                  encodeCount_loop data is (carry_halfbyte halfBytes', result', ri')))"

definition encodeCount :: "double list \<Rightarrow> nat \<Rightarrow> u8 list \<Rightarrow> fault + (u8 list \<times> nat)" where
  "encodeCount data dataSize result =
     (case encodeCount_loop data [0..<dataSize] ([], result, 0) of
        Inl f \<Rightarrow> Inl f
      | Inr (halfBytes, result', ri) \<Rightarrow> flush_halfbyte halfBytes result' ri)"

section \<open>decodeLinear and decodeCount\<close>

text \<open>
  The decoders take \<open>std::vector\<close> references: \<open>dataSize\<close> is \<open>data.size()\<close>, and
  \<open>result\<close> arrives with the size its caller gave it.  Both index with the unchecked
  \<open>operator[]\<close>.  No statement inside their \<open>try\<close> block throws, so the \<open>catch (...)\<close>
  handler, which prints \<open>DECODE ERROR\<close> and the decoder's variables to \<open>cerr\<close>, is
  never entered and has no counterpart in the model.

  \<open>std::vector::resize\<close>:
\<close>

definition resize :: "double list \<Rightarrow> nat \<Rightarrow> double list" where
  "resize v n = take n v @ replicate (n - length v) 0"

text \<open>
  \<open>for (i=0; i<4; i++) { ints[1] = ints[1] | ((0xff & (init = data[i])) << (i*8));
  ints[2] = ints[2] | ((0xff & (init = data[4+i])) << (i*8)); }\<close>
\<close>

fun decodeLinear_header :: "u8 list \<Rightarrow> nat list \<Rightarrow> u32 \<times> u32 \<Rightarrow> fault + (u32 \<times> u32)" where
  "decodeLinear_header data [] (ints1, ints2) = Inr (ints1, ints2)"
| "decodeLinear_header data (i # is) (ints1, ints2) =
     (case rd data i of
        Inl f \<Rightarrow> Inl f
      | Inr a \<Rightarrow>
          (case rd data (4 + i) of
             Inl f \<Rightarrow> Inl f
           | Inr b \<Rightarrow>
               decodeLinear_header data is
                 (ints1 OR push_bit (i * 8) (0xff AND ucast a),
                  ints2 OR push_bit (i * 8) (0xff AND ucast b))))"

text \<open>
  Every call of \<open>decodeInt\<close> moves the read position forward; the \<open>while\<close> loops of
  the decoders terminate for this reason.
\<close>

definition read_pos :: "nat \<Rightarrow> int \<Rightarrow> nat" where
  "read_pos di half = 2 * di + (if half = 0 then 0 else 1)"

lemma read_halfbyte_pos:
  "read_halfbyte data di half = Inr (hb, di', half') \<Longrightarrow> read_pos di half < read_pos di' half'"
  by (auto simp add: read_halfbyte_def read_pos_def split: sum.splits if_splits)

lemma decodeInt_loop_pos:
  "decodeInt_loop data n is (di, half, res) = Inr (di', half', res')
     \<Longrightarrow> read_pos di half \<le> read_pos di' half'"
proof (induction "is" arbitrary: di half res)
  case Nil
  then show ?case by simp
next
  case (Cons i "is")
  from Cons.prems obtain hb di1 half1 where
    r: "read_halfbyte data di half = Inr (hb, di1, half1)"
    and l: "decodeInt_loop data n is (di1, half1, res OR push_bit ((i - n) * 4) (ucast hb))
              = Inr (di', half', res')"
    by (auto split: sum.splits)
  from read_halfbyte_pos [OF r] Cons.IH [OF l] show ?case by simp
qed

lemma decodeInt_pos:
  assumes "decodeInt data di half = Inr (di', half', res)"
  shows "read_pos di half < read_pos di' half'"
proof -
  from assms obtain head di1 half1 where
    r: "read_halfbyte data di half = Inr (head, di1, half1)"
    by (auto simp add: decodeInt_def split: sum.splits)
  have "read_pos di1 half1 \<le> read_pos di' half'"
    using assms r decodeInt_loop_pos [of data _ _ di1 half1 _ di' half' res]
    by (auto simp add: decodeInt_def Let_def split: if_splits)
  with read_halfbyte_pos [OF r] show ?thesis by simp
qed

text \<open>
  The \<open>while (di < dataSize)\<close> loop of \<open>decodeLinear\<close>.  The test on the last half
  byte leaves the loop by \<open>break\<close>; \<open>extrapol\<close> and \<open>y\<close> are \<open>int\<close>.
\<close>

function decodeLinear_loop ::
  "u8 list \<Rightarrow> u32 \<times> u32 \<times> nat \<times> int \<times> double list \<times> nat \<Rightarrow> fault + (double list \<times> nat)" where
  "decodeLinear_loop data (ints1, ints2, di, half, result, ri) =
     (if di < length data then
        (let ints0 = ints1;
             ints1' = ints2
         in if di = length data - 1 \<and> half = 1 \<and> data ! di AND 0xf \<noteq> 0x8 then Inr (result, ri)
            else
              (case decodeInt data di half of
                 Inl f \<Rightarrow> Inl f
               | Inr (di', half', ints2') \<Rightarrow>
                   (let extrapol = ints1' + (ints1' - ints0);
                        y = extrapol + ints2'
                    in case wr result ri (int_to_double y / 100000.0) of
                         Inl f \<Rightarrow> Inl f
                       | Inr result' \<Rightarrow>
                           decodeLinear_loop data (ints1', y, di', half', result', ri + 1))))
      else Inr (result, ri))"
  by pat_completeness auto
termination
proof (relation "measure (\<lambda>(data, ints1, ints2, di, half, result, ri). 2 * length data - read_pos di half)")
  show "wf (measure (\<lambda>(data, ints1, ints2, di, half, result, ri). 2 * length data - read_pos di half))"
    by simp
next
  fix data :: "u8 list" and ints1 ints2 :: u32 and di :: nat and half :: int
    and result :: "double list" and ri :: nat and ints0 ints1' :: u32 and x2 :: "nat \<times> int \<times> u32"
    and di' :: nat and y' :: "int \<times> u32" and half' :: int and ints2' extrapol y :: u32
    and result' :: "double list"
  assume "di < length data" and "decodeInt data di half = Inr x2" and "(di', y') = x2"
    and "(half', ints2') = y'"
  then have "decodeInt data di half = Inr (di', half', ints2')" by simp
  from decodeInt_pos [OF this] \<open>di < length data\<close>
  have "read_pos di half < read_pos di' half'" and "read_pos di half < 2 * length data"
    by (simp_all add: read_pos_def)
  then show "((data, ints1', y, di', half', result', ri + 1), (data, ints1, ints2, di, half, result, ri))
      \<in> measure (\<lambda>(data, ints1, ints2, di, half, result, ri). 2 * length data - read_pos di half)"
    by simp
qed

declare decodeLinear_loop.simps [simp del]

definition decodeLinear :: "u8 list \<Rightarrow> double list \<Rightarrow> fault + double list" where
  "decodeLinear data result =
     (case decodeLinear_header data [0..<4] (0, 0) of
        Inl f \<Rightarrow> Inl f
      | Inr (ints1, ints2) \<Rightarrow>
     (case wr result 0 (int_to_double ints1 / 100000.0) of
        Inl f \<Rightarrow> Inl f
      | Inr result1 \<Rightarrow>
     (case wr result1 1 (int_to_double ints2 / 100000.0) of
        Inl f \<Rightarrow> Inl f
      | Inr result2 \<Rightarrow>
     (case decodeLinear_loop data (ints1, ints2, 8, 0, result2, 2) of
        Inl f \<Rightarrow> Inl f
      | Inr (result3, ri) \<Rightarrow> Inr (resize result3 ri)))))"

text \<open>The \<open>while (di < dataSize)\<close> loop of \<open>decodeCount\<close>; \<open>count\<close> is an \<open>int\<close>.\<close>

function decodeCount_loop ::
  "u8 list \<Rightarrow> nat \<times> int \<times> double list \<times> nat \<Rightarrow> fault + (double list \<times> nat)" where
  "decodeCount_loop data (di, half, result, ri) =
     (if di < length data then
        (if di = length data - 1 \<and> half = 1 \<and> data ! di AND 0xf \<noteq> 0x8 then Inr (result, ri)
         else
           (case decodeInt data di half of
              Inl f \<Rightarrow> Inl f
            | Inr (di', half', count) \<Rightarrow>
                (case wr result ri (int_to_double count) of
                   Inl f \<Rightarrow> Inl f
                 | Inr result' \<Rightarrow> decodeCount_loop data (di', half', result', ri + 1))))
      else Inr (result, ri))"
  by pat_completeness auto
termination
proof (relation "measure (\<lambda>(data, di, half, result, ri). 2 * length data - read_pos di half)")
  show "wf (measure (\<lambda>(data, di, half, result, ri). 2 * length data - read_pos di half))"
    by simp
next
  fix data :: "u8 list" and di :: nat and half :: int and result :: "double list" and ri :: nat
    and x2 :: "nat \<times> int \<times> u32" and di' :: nat and y' :: "int \<times> u32" and half' :: int
    and count :: u32 and result' :: "double list"
  assume "di < length data" and "decodeInt data di half = Inr x2" and "(di', y') = x2"
    and "(half', count) = y'"
  then have "decodeInt data di half = Inr (di', half', count)" by simp
  from decodeInt_pos [OF this] \<open>di < length data\<close>
  have "read_pos di half < read_pos di' half'" and "read_pos di half < 2 * length data"
    by (simp_all add: read_pos_def)
  then show "((data, di', half', result', ri + 1), (data, di, half, result, ri))
      \<in> measure (\<lambda>(data, di, half, result, ri). 2 * length data - read_pos di half)"
    by simp
qed

declare decodeCount_loop.simps [simp del]

definition decodeCount :: "u8 list \<Rightarrow> double list \<Rightarrow> fault + double list" where
  "decodeCount data result =
     (case decodeCount_loop data (0, 0, result, 0) of
        Inl f \<Rightarrow> Inl f
      | Inr (result', ri) \<Rightarrow> Inr (resize result' ri))"

section \<open>encode2ByteFloat and decode2ByteFloat\<close>

definition TWO_BYTE_FLOAT_FIXED_POINT :: double where
  "TWO_BYTE_FLOAT_FIXED_POINT = 3000.0"

text \<open>
  \<open>for (i=0; i<dataSize; i++) { fp = log(data[i]) * TWO_BYTE_FLOAT_FIXED_POINT + 0.5;
  result[ri++] = fp & 0xff; result[ri++] = fp >> 8; }\<close> with \<open>unsigned short fp\<close>.
\<close>

fun encode2ByteFloat_loop :: "double list \<Rightarrow> nat list \<Rightarrow> u8 list \<times> nat \<Rightarrow> fault + (u8 list \<times> nat)" where
  "encode2ByteFloat_loop data [] (result, ri) = Inr (result, ri)"
| "encode2ByteFloat_loop data (i # is) (result, ri) =
     (case rd data i of
        Inl f \<Rightarrow> Inl f
      | Inr d \<Rightarrow>
          (let fp = double_to_ushort (ln d * TWO_BYTE_FLOAT_FIXED_POINT + 0.5)
           in case wr result ri (ucast (fp AND 0xff)) of
                Inl f \<Rightarrow> Inl f
              | Inr result1 \<Rightarrow>
                  (case wr result1 (ri + 1) (ucast (drop_bit 8 fp)) of
                     Inl f \<Rightarrow> Inl f
                   | Inr result2 \<Rightarrow> encode2ByteFloat_loop data is (result2, ri + 2))))"

definition encode2ByteFloat :: "double list \<Rightarrow> nat \<Rightarrow> u8 list \<Rightarrow> fault + (u8 list \<times> nat)" where
  "encode2ByteFloat data dataSize result = encode2ByteFloat_loop data [0..<dataSize] (result, 0)"

text \<open>
  \<open>for (i=0; i<dataSize; i+=2) { fp = data[i] | (data[i+1] << 8);
  result[ri++] = exp(fp / TWO_BYTE_FLOAT_FIXED_POINT); }\<close>.  The loop bound
  \<open>dataSize\<close> is a local variable of the source and a parameter of the loop here;
  \<open>decode2ByteFloat\<close> sets it to \<open>data.size()\<close>.
\<close>

function decode2ByteFloat_loop ::
  "u8 list \<Rightarrow> nat \<Rightarrow> nat \<Rightarrow> double list \<Rightarrow> nat \<Rightarrow> fault + double list" where
  "decode2ByteFloat_loop data dataSize i result ri =
     (if i < dataSize then
        (case rd data i of
           Inl f \<Rightarrow> Inl f
         | Inr a \<Rightarrow>
             (case rd data (i + 1) of
                Inl f \<Rightarrow> Inl f
              | Inr b \<Rightarrow>
                  (let fp = (ucast a OR push_bit 8 (ucast b) :: u16)
                   in case wr result ri (exp (real (unat fp) / TWO_BYTE_FLOAT_FIXED_POINT)) of
                        Inl f \<Rightarrow> Inl f
                      | Inr result' \<Rightarrow> decode2ByteFloat_loop data dataSize (i + 2) result' (ri + 1))))
      else Inr result)"
  by pat_completeness auto
termination
  by (relation "measure (\<lambda>(data, dataSize, i, result, ri). dataSize - i)") auto

declare decode2ByteFloat_loop.simps [simp del]

definition decode2ByteFloat :: "u8 list \<Rightarrow> double list \<Rightarrow> fault + double list" where
  "decode2ByteFloat data result =
     decode2ByteFloat_loop data (length data) 0 (resize result (length data div 2)) 0"

text \<open>The value that the loop stores for the \<open>k\<close>-th pair of bytes.\<close>

definition two_byte_value :: "u8 list \<Rightarrow> nat \<Rightarrow> double" where
  "two_byte_value data k =
     exp (real (unat (ucast (data ! (2 * k)) OR push_bit 8 (ucast (data ! (2 * k + 1))) :: u16))
          / TWO_BYTE_FLOAT_FIXED_POINT)"

section \<open>What the encoders write\<close>

text \<open>
  Pure descriptions of the encoders' output, used to state their properties.

  The four bytes of a 32-bit word, least significant first, as the header loop of
  \<open>encodeLinear\<close> computes them.
\<close>

definition le32 :: "u32 \<Rightarrow> u8 list" where
  "le32 w = map (\<lambda>i. ucast (drop_bit (i * 8) w AND 0xff)) [0..<4]"

text \<open>
  Half bytes packed two per byte, the earlier one in the high half, as the loop over
  \<open>hbi\<close> does; an unpaired last half byte is not written by that loop.
  \<open>pack_stream\<close> adds the final byte \<open>halfBytes[0] << 4\<close> for it.
\<close>

fun pack_pairs :: "u8 list \<Rightarrow> u8 list" where
  "pack_pairs (a # b # hs) = (push_bit 4 a OR (b AND 0xf)) # pack_pairs hs"
| "pack_pairs hs = []"

definition pack_stream :: "u8 list \<Rightarrow> u8 list" where
  "pack_stream hs = pack_pairs hs @ (if length hs mod 2 \<noteq> 0 then [push_bit 4 (last hs)] else [])"

text \<open>The fixed-point integer of a \<open>double\<close>: \<open>data[i] * 100000 + 0.5\<close> as \<open>unsigned int\<close>.\<close>

definition fixed_point :: "double \<Rightarrow> u32" where
  "fixed_point d = double_to_uint (d * 100000 + 0.5)"

text \<open>
  The residuals \<open>diff = ints[2] - extrapol\<close> of \<open>encodeLinear\<close>, where \<open>a\<close> and
  \<open>b\<close> are the two previous fixed-point integers, and the integers that
  \<open>encodeCount\<close> passes to \<open>encodeInt\<close>.
\<close>

fun residuals :: "u32 \<Rightarrow> u32 \<Rightarrow> double list \<Rightarrow> u32 list" where
  "residuals a b [] = []"
| "residuals a b (d # ds) = (fixed_point d - (b + (b - a))) # residuals b (fixed_point d) ds"

definition count_ints :: "double list \<Rightarrow> u32 list" where
  "count_ints ds = map (\<lambda>d. ucast (double_to_size_t (d + 0.5))) ds"

text \<open>All bytes that successive calls of \<open>encodeInt\<close> write.\<close>

definition halfbyte_stream :: "u32 list \<Rightarrow> u8 list" where
  "halfbyte_stream xs = concat (map encodeInt xs)"

text \<open>
  The values \<open>y = extrapol + ints[2]\<close> that \<open>decodeLinear\<close> rebuilds from a list of
  residuals, where \<open>a\<close> and \<open>b\<close> are the two previous values.
\<close>

fun reconstruct :: "u32 \<Rightarrow> u32 \<Rightarrow> u32 list \<Rightarrow> u32 list" where
  "reconstruct a b [] = []"
| "reconstruct a b (x # xs) = (b + (b - a) + x) # reconstruct b (b + (b - a) + x) xs"

section \<open>The integer encoding in the spec's words\<close>

text \<open>
  A second description of \<open>encodeInt\<close>, following the spec's words and not the
  source's loops, to compare the source with.  \<open>halfbyte_at x i\<close> is the \<open>i\<close>-th
  half byte of \<open>x\<close>, counted from the least significant; \<open>leading_count v x\<close> is
  the number of half bytes equal to \<open>v\<close> at the most significant end of \<open>x\<close>.
\<close>

definition halfbyte_at :: "u32 \<Rightarrow> nat \<Rightarrow> u8" where
  "halfbyte_at x i = ucast (drop_bit (4 * i) x AND 0xf)"

definition leading_count :: "u8 \<Rightarrow> u32 \<Rightarrow> nat" where
  "leading_count v x = length (takeWhile (\<lambda>i. halfbyte_at x i = v) (rev [0..<8]))"

text \<open>
  "If the top nibble is 0x0, \<open>l\<close> is the count of leading 0x0 nibbles (0..8); if it is
  0xf, \<open>l\<close> is the count of leading all-ones nibbles (0..7); otherwise the header is
  0."  The count of leading 0xf half bytes is 8 for -1; the range 0..7 caps it.
\<close>

definition spec_l :: "u32 \<Rightarrow> nat" where
  "spec_l x =
     (if halfbyte_at x 7 = 0x0 then leading_count 0x0 x
      else if halfbyte_at x 7 = 0xf then min 7 (leading_count 0xf x)
      else 0)"

text \<open>
  "Emit a header nibble with value \<open>l\<close> (\<open>l + 8\<close> in the all-ones case), then the
  remaining \<open>8 - l\<close> nibbles of \<open>x\<close>, least significant nibble first."
\<close>

definition spec_encodeInt :: "u32 \<Rightarrow> u8 list" where
  "spec_encodeInt x =
     (if halfbyte_at x 7 = 0x0 then word_of_nat (spec_l x) # map (halfbyte_at x) [0..<8 - spec_l x]
      else if halfbyte_at x 7 = 0xf then word_of_nat (spec_l x + 8) # map (halfbyte_at x) [0..<8 - spec_l x]
      else 0 # map (halfbyte_at x) [0..<8])"

section \<open>The half-byte stream\<close>

lemma length_nibbles [simp]: "length (nibbles data) = 2 * length data"
  by (induction data) (simp_all add: nibbles_def)

lemma nibbles_nth_even: "di < length data \<Longrightarrow> nibbles data ! (2 * di) = drop_bit 4 (data ! di)"
proof (induction data arbitrary: di)
  case Nil then show ?case by simp
next
  case (Cons b bs)
  then show ?case by (cases di) (simp_all add: nibbles_def)
qed

lemma nibbles_nth_odd: "di < length data \<Longrightarrow> nibbles data ! Suc (2 * di) = data ! di AND 0xf"
proof (induction data arbitrary: di)
  case Nil then show ?case by simp
next
  case (Cons b bs)
  then show ?case by (cases di) (simp_all add: nibbles_def)
qed

lemma read_halfbyte_high:
  "di < length data \<Longrightarrow> read_halfbyte data di 0 = Inr (nibbles data ! (2 * di), di, 1)"
  by (simp add: read_halfbyte_def rd_def nibbles_nth_even)

lemma read_halfbyte_low:
  "di < length data \<Longrightarrow> read_halfbyte data di 1 = Inr (nibbles data ! (2 * di + 1), di + 1, 0)"
  by (simp add: read_halfbyte_def rd_def nibbles_nth_odd)

lemma shifted_mask_eq: "i < 8 \<Longrightarrow> shifted_mask i = NOT (mask (28 - 4 * i))"
proof -
  assume "i < 8"
  then consider "i = 0" | "i = 1" | "i = 2" | "i = 3" | "i = 4" | "i = 5" | "i = 6" | "i = 7"
    by linarith
  then show ?thesis
    by cases (simp_all add: shifted_mask_def mask_f_def mask_eq_exp_minus_1)
qed

lemma bit_shifted_mask: "i < 8 \<Longrightarrow> bit (shifted_mask i) j \<longleftrightarrow> 28 - 4 * i \<le> j \<and> j < 32"
  by (auto simp add: shifted_mask_eq bit_simps)

lemma and_shifted_mask_zero:
  assumes "i < 8" "x AND shifted_mask i = 0" "28 - 4 * i \<le> j"
  shows "\<not> bit x j"
proof
  assume b: "bit x j"
  then have "j < 32" by (auto dest: bit_imp_le_length)
  with b assms(1,3) have "bit (x AND shifted_mask i) j"
    by (simp add: bit_and_iff bit_shifted_mask)
  with assms(2) show False by simp
qed

lemma and_shifted_mask_ones:
  assumes "i < 8" "x AND shifted_mask i = shifted_mask i" "28 - 4 * i \<le> j" "j < 32"
  shows "bit x j"
proof -
  have "bit (shifted_mask i) j" using assms by (simp add: bit_shifted_mask)
  then have "bit (x AND shifted_mask i) j" using assms(2) by simp
  then show ?thesis by (simp add: bit_and_iff)
qed

lemma zero_run_le: "zero_run x \<le> 8"
  by (auto simp add: zero_run_def find_Some_iff split: option.splits)

lemma zero_run_bits:
  assumes "32 - 4 * zero_run x \<le> j"
  shows "\<not> bit x j"
proof (cases "find (\<lambda>i. x AND shifted_mask i \<noteq> 0) [0..<8]")
  case None
  then have "x AND shifted_mask 7 = 0" by (simp add: find_None_iff)
  then show ?thesis using and_shifted_mask_zero [of 7 x j] by simp
next
  case (Some l)
  then have l: "zero_run x = l" by (simp add: zero_run_def)
  from Some have l8: "l < 8" and prev: "\<forall>k<l. x AND shifted_mask k = 0"
    by (auto simp add: find_Some_iff)
  show ?thesis
  proof (cases l)
    case 0
    with assms l have "32 \<le> j" by simp
    then show ?thesis by (auto dest: bit_imp_le_length)
  next
    case (Suc l')
    with prev have "x AND shifted_mask l' = 0" by simp
    moreover have "l' < 8" using Suc l8 by simp
    moreover have "28 - 4 * l' \<le> j" using assms l Suc by simp
    ultimately show ?thesis using and_shifted_mask_zero by blast
  qed
qed

lemma one_run_le: "one_run x \<le> 7"
  by (auto simp add: one_run_def find_Some_iff split: option.splits)

lemma one_run_pos:
  assumes "x AND mask_f = mask_f"
  shows "0 < one_run x"
proof -
  have "shifted_mask 0 = mask_f" by (simp add: shifted_mask_def)
  with assms have "x AND shifted_mask 0 = shifted_mask 0" by simp
  then show ?thesis
    by (cases "one_run x") (auto simp add: one_run_def find_Some_iff split: option.splits)
qed

lemma one_run_bits:
  assumes "x AND mask_f = mask_f" "32 - 4 * one_run x \<le> j" "j < 32"
  shows "bit x j"
proof (cases "find (\<lambda>i. x AND shifted_mask i \<noteq> shifted_mask i) [0..<8]")
  case None
  then have "x AND shifted_mask 6 = shifted_mask 6" by (simp add: find_None_iff)
  moreover from None have "one_run x = 7" by (simp add: one_run_def)
  ultimately show ?thesis using assms(2,3) and_shifted_mask_ones [of 6 x j] by simp
next
  case (Some l)
  then have l: "one_run x = l" by (simp add: one_run_def)
  from Some have l8: "l < 8" and prev: "\<forall>k<l. x AND shifted_mask k = shifted_mask k"
    by (auto simp add: find_Some_iff)
  from one_run_pos [OF assms(1)] l obtain l' where Suc: "l = Suc l'"
    by (cases l) simp_all
  with prev have "x AND shifted_mask l' = shifted_mask l'" by simp
  moreover have "l' < 8" using Suc l8 by simp
  moreover have "28 - 4 * l' \<le> j" using assms l Suc by simp
  ultimately show ?thesis using assms(3) and_shifted_mask_ones [of l' x j] by simp
qed

lemma fill_ones_Suc: "fill_ones (Suc n) res = fill_ones n res OR shifted_mask n"
  by (simp add: fill_ones_def)

lemma bit_fill_ones:
  "n \<le> 8 \<Longrightarrow> bit (fill_ones n res) j \<longleftrightarrow> bit res j \<or> (32 - 4 * n \<le> j \<and> j < 32)"
proof (induction n)
  case 0
  then show ?case by (auto simp add: fill_ones_def)
next
  case (Suc n)
  then have "n < 8" by simp
  with Suc show ?case
    by (auto simp add: fill_ones_Suc bit_or_iff bit_shifted_mask)
qed

lemma nibble_mask: "(0xf :: u8) = mask 4"
  by (simp add: mask_eq_exp_minus_1)

lemma bit_rest_nibble:
  assumes "k < 8"
  shows "bit (push_bit (k * 4) (ucast ((ucast (signed_drop_bit (4 * k) x) :: u8) AND 0xf) :: u32)) j
     \<longleftrightarrow> k * 4 \<le> j \<and> j < k * 4 + 4 \<and> bit (x :: u32) j"
  using assms
  by (auto simp add: nibble_mask bit_simps dest: bit_imp_le_length)

lemma or_nibble_step:
  assumes "n \<le> a" "a < 8"
  shows "(res OR push_bit ((a - n) * 4) (ucast ((ucast (signed_drop_bit (4 * (a - n)) x) :: u8) AND 0xf)))
           OR (take_bit (4 * (8 - n)) x AND NOT (mask (4 * (Suc a - n))))
       = res OR (take_bit (4 * (8 - n)) (x :: u32) AND NOT (mask (4 * (a - n))))"
proof (rule bit_eqI)
  fix j
  have k: "a - n < 8" using assms by simp
  show "bit ((res OR push_bit ((a - n) * 4) (ucast ((ucast (signed_drop_bit (4 * (a - n)) x) :: u8) AND 0xf)))
           OR (take_bit (4 * (8 - n)) x AND NOT (mask (4 * (Suc a - n))))) j
       = bit (res OR (take_bit (4 * (8 - n)) (x :: u32) AND NOT (mask (4 * (a - n))))) j"
    unfolding bit_or_iff bit_rest_nibble [OF k]
    using assms by (auto simp add: bit_simps dest: bit_imp_le_length)
qed

lemma read_halfbyte_stream:
  assumes "half = 0 \<or> half = 1" "2 * di + nat half < 2 * length data"
  shows "\<exists>di' half'. read_halfbyte data di half = Inr (nibbles data ! (2 * di + nat half), di', half')
           \<and> (half' = 0 \<or> half' = 1) \<and> 2 * di' + nat half' = 2 * di + nat half + 1"
proof -
  from assms have "di < length data" by auto
  with assms(1) show ?thesis
    by (auto simp add: read_halfbyte_high read_halfbyte_low)
qed

lemma decodeInt_loop_stream:
  assumes "half = 0 \<or> half = 1" "n \<le> a" "a \<le> 8"
    and "2 * di + nat half + (8 - a) \<le> 2 * length data"
    and "\<forall>i. a \<le> i \<and> i < 8 \<longrightarrow>
           nibbles data ! (2 * di + nat half + (i - a)) = ucast (signed_drop_bit (4 * (i - n)) x) AND 0xf"
  shows "\<exists>di' half'. decodeInt_loop data n [a..<8] (di, half, res)
             = Inr (di', half', res OR (take_bit (4 * (8 - n)) x AND NOT (mask (4 * (a - n)))))
           \<and> (half' = 0 \<or> half' = 1) \<and> 2 * di' + nat half' = 2 * di + nat half + (8 - a)"
  using assms
proof (induction "8 - a" arbitrary: a di half res)
  case 0
  then have "a = 8" by simp
  moreover have "take_bit m x AND NOT (mask m) = 0" for m
    by (rule bit_eqI) (auto simp add: bit_simps)
  ultimately show ?case using 0 by simp
next
  case (Suc d)
  then have a: "a < 8" by simp
  let ?p = "2 * di + nat half"
  from Suc.prems a have "?p < 2 * length data" by simp
  from read_halfbyte_stream [OF Suc.prems(1) this]
  obtain di1 half1 where
    r: "read_halfbyte data di half = Inr (nibbles data ! ?p, di1, half1)"
    and h1: "half1 = 0 \<or> half1 = 1" and p1: "2 * di1 + nat half1 = ?p + 1"
    by blast
  from Suc.prems(5) a have nib: "nibbles data ! ?p = ucast (signed_drop_bit (4 * (a - n)) x) AND 0xf"
    by (metis diff_self_eq_0 add_0_right order_refl)
  have d: "d = 8 - Suc a" using Suc.hyps(2) by simp
  have n': "n \<le> Suc a" using Suc.prems(2) by simp
  have a': "Suc a \<le> 8" using a by simp
  have len': "2 * di1 + nat half1 + (8 - Suc a) \<le> 2 * length data"
    using p1 Suc.prems(4) a by simp
  have nibs': "\<forall>i. Suc a \<le> i \<and> i < 8 \<longrightarrow>
     nibbles data ! (2 * di1 + nat half1 + (i - Suc a)) = ucast (signed_drop_bit (4 * (i - n)) x) AND 0xf"
  proof (intro allI impI)
    fix i assume i: "Suc a \<le> i \<and> i < 8"
    then have "2 * di1 + nat half1 + (i - Suc a) = ?p + (i - a)" using p1 by linarith
    moreover from i have "a \<le> i \<and> i < 8" by simp
    ultimately show "nibbles data ! (2 * di1 + nat half1 + (i - Suc a)) = ucast (signed_drop_bit (4 * (i - n)) x) AND 0xf"
      using Suc.prems(5) by simp
  qed
  from Suc.hyps(1) [OF d h1 n' a' len' nibs',
      of "res OR push_bit ((a - n) * 4) (ucast ((ucast (signed_drop_bit (4 * (a - n)) x) :: u8) AND 0xf))"]
  obtain di' half' where
    l: "decodeInt_loop data n [Suc a..<8]
          (di1, half1, res OR push_bit ((a - n) * 4) (ucast ((ucast (signed_drop_bit (4 * (a - n)) x) :: u8) AND 0xf)))
        = Inr (di', half',
            (res OR push_bit ((a - n) * 4) (ucast ((ucast (signed_drop_bit (4 * (a - n)) x) :: u8) AND 0xf)))
             OR (take_bit (4 * (8 - n)) x AND NOT (mask (4 * (Suc a - n)))))"
    and h': "half' = 0 \<or> half' = 1" and p': "2 * di' + nat half' = 2 * di1 + nat half1 + (8 - Suc a)"
    by blast
  have "decodeInt_loop data n [a..<8] (di, half, res)
      = Inr (di', half', res OR (take_bit (4 * (8 - n)) x AND NOT (mask (4 * (a - n)))))"
    using a r nib l or_nibble_step [OF Suc.prems(2) a, of res x]
    by (simp add: upt_conv_Cons)
  moreover have "2 * di' + nat half' = ?p + (8 - a)" using p' p1 a by simp
  ultimately show ?case using h' by blast
qed

lemma header_cases:
  assumes "l \<le> 8"
  shows "(word_of_nat l :: u8) \<le> 8" "unat (word_of_nat l :: u8) = l" "(word_of_nat l :: u8) AND 0xf = word_of_nat l"
proof -
  from assms consider "l = 0" | "l = 1" | "l = 2" | "l = 3" | "l = 4" | "l = 5" | "l = 6" | "l = 7" | "l = 8"
    by linarith
  note c = this
  from c show "(word_of_nat l :: u8) \<le> 8" by cases simp_all
  from assms show "unat (word_of_nat l :: u8) = l" by (simp add: unat_of_nat)
  from c show "(word_of_nat l :: u8) AND 0xf = word_of_nat l" by cases simp_all
qed

lemma header_ones:
  assumes "0 < l" "l \<le> 7"
  shows "\<not> (word_of_nat (l + 8) :: u8) \<le> 8" "unat (word_of_nat (l + 8) :: u8) - 8 = l"
    "(word_of_nat (l + 8) :: u8) AND 0xf = word_of_nat (l + 8)"
proof -
  from assms consider "l = 1" | "l = 2" | "l = 3" | "l = 4" | "l = 5" | "l = 6" | "l = 7"
    by linarith
  note c = this
  from c show "\<not> (word_of_nat (l + 8) :: u8) \<le> 8" by cases simp_all
  from c show "unat (word_of_nat (l + 8) :: u8) - 8 = l" by cases simp_all
  from c show "(word_of_nat (l + 8) :: u8) AND 0xf = word_of_nat (l + 8)" by cases simp_all
qed

lemma length_rest_halfbytes [simp]: "length (rest_halfbytes x l) = 8 - l"
  by (simp add: rest_halfbytes_def)

lemma nth_rest_halfbytes:
  "k < 8 - l \<Longrightarrow> rest_halfbytes x l ! k = ucast (signed_drop_bit (4 * k) x)"
  by (simp add: rest_halfbytes_def)

text \<open>The decoder on a stream that holds a head nibble and the low nibbles of \<open>x\<close>.\<close>

lemma decodeInt_stream:
  assumes half: "half = 0 \<or> half = 1"
    and l: "l \<le> 8"
    and len: "2 * di + nat half + (1 + (8 - l)) \<le> 2 * length data"
    and head: "nibbles data ! (2 * di + nat half) = h"
    and h: "(h \<le> 8 \<and> unat h = l \<and> r0 = 0) \<or> (\<not> h \<le> 8 \<and> unat h - 8 = l \<and> r0 = fill_ones l 0)"
    and rest: "\<forall>k<8 - l. nibbles data ! (2 * di + nat half + 1 + k) = ucast (signed_drop_bit (4 * k) x) AND 0xf"
  shows "\<exists>di' half'. decodeInt data di half = Inr (di', half', r0 OR take_bit (4 * (8 - l)) x)
           \<and> (half' = 0 \<or> half' = 1) \<and> 2 * di' + nat half' = 2 * di + nat half + (1 + (8 - l))"
proof -
  let ?p = "2 * di + nat half"
  from len have "?p < 2 * length data" by simp
  from read_halfbyte_stream [OF half this] head
  obtain di1 half1 where
    r: "read_halfbyte data di half = Inr (h, di1, half1)"
    and h1: "half1 = 0 \<or> half1 = 1" and p1: "2 * di1 + nat half1 = ?p + 1"
    by auto
  from r h have dec: "decodeInt data di half =
      (if l = 8 then Inr (di1, half1, r0) else decodeInt_loop data l [l..<8] (di1, half1, r0))"
    by (auto simp add: decodeInt_def Let_def)
  show ?thesis
  proof (cases "l = 8")
    case True
    with dec have "decodeInt data di half = Inr (di1, half1, r0 OR take_bit (4 * (8 - l)) x)"
      by simp
    with h1 p1 True show ?thesis by simp
  next
    case False
    have len': "2 * di1 + nat half1 + (8 - l) \<le> 2 * length data" using p1 len by simp
    have nibs: "\<forall>i. l \<le> i \<and> i < 8 \<longrightarrow>
        nibbles data ! (2 * di1 + nat half1 + (i - l)) = ucast (signed_drop_bit (4 * (i - l)) x) AND 0xf"
    proof (intro allI impI)
      fix i assume "l \<le> i \<and> i < 8"
      then have "i - l < 8 - l" by linarith
      with rest have "nibbles data ! (?p + 1 + (i - l)) = ucast (signed_drop_bit (4 * (i - l)) x) AND 0xf"
        by blast
      then show "nibbles data ! (2 * di1 + nat half1 + (i - l)) = ucast (signed_drop_bit (4 * (i - l)) x) AND 0xf"
        using p1 by simp
    qed
    from decodeInt_loop_stream [OF h1 order_refl l len' nibs, of r0]
    obtain di' half' where
      lp: "decodeInt_loop data l [l..<8] (di1, half1, r0) = Inr (di', half', r0 OR take_bit (4 * (8 - l)) x)"
      and h': "half' = 0 \<or> half' = 1" and p': "2 * di' + nat half' = 2 * di1 + nat half1 + (8 - l)"
      by auto
    from dec False lp have "decodeInt data di half = Inr (di', half', r0 OR take_bit (4 * (8 - l)) x)"
      by simp
    with h' p' p1 show ?thesis by auto
  qed
qed

text \<open>What \<open>encodeInt\<close> writes: a head nibble and \<open>8 - l\<close> low nibbles of \<open>x\<close>.\<close>

lemma encodeInt_eq:
  "encodeInt x = (if x AND mask_f = 0 then word_of_nat (zero_run x)
                  else if x AND mask_f = mask_f then word_of_nat (one_run x + 8) else 0)
                 # rest_halfbytes x (encodeInt_l x)"
  by (simp add: encodeInt_def encodeInt_l_def Let_def)

lemma encodeInt_l_le: "encodeInt_l x \<le> 8"
  using zero_run_le [of x] one_run_le [of x] by (simp add: encodeInt_l_def Let_def)

lemma length_encodeInt: "length (encodeInt x) = 1 + (8 - encodeInt_l x)"
  by (simp add: encodeInt_eq)

lemma restore_zero: "x AND mask_f = 0 \<Longrightarrow> 0 OR take_bit (4 * (8 - zero_run x)) x = x"
proof (rule bit_eqI)
  fix j
  assume "x AND mask_f = 0"
  have "j < 4 * (8 - zero_run x)" if "bit x j"
    using that zero_run_bits [of x j] zero_run_le [of x] by (cases "32 - 4 * zero_run x \<le> j") auto
  then show "bit (0 OR take_bit (4 * (8 - zero_run x)) x) j = bit x j"
    by (auto simp add: bit_simps)
qed

lemma restore_ones:
  "x AND mask_f = mask_f \<Longrightarrow> fill_ones (one_run x) 0 OR take_bit (4 * (8 - one_run x)) x = x"
proof (rule bit_eqI)
  fix j
  assume a: "x AND mask_f = mask_f"
  have l8: "one_run x \<le> 8" using one_run_le [of x] by simp
  have "j < 4 * (8 - one_run x) \<or> (32 - 4 * one_run x \<le> j \<and> j < 32)" if "bit x j"
    using that l8 by (auto dest: bit_imp_le_length)
  moreover have "bit x j" if "32 - 4 * one_run x \<le> j \<and> j < 32"
    using that one_run_bits [OF a, of j] by simp
  ultimately show "bit (fill_ones (one_run x) 0 OR take_bit (4 * (8 - one_run x)) x) j = bit x j"
    by (auto simp add: bit_or_iff bit_take_bit_iff bit_fill_ones [OF l8])
qed

lemma restore_full: "0 OR take_bit (4 * (8 - 0)) x = (x :: u32)"
  by (rule bit_eqI) (auto simp add: bit_simps dest: bit_imp_le_length)

text \<open>The decoder inverts the encoder at any position of the stream.\<close>

lemma decodeInt_inverts_encodeInt:
  assumes half: "half = 0 \<or> half = 1"
    and stream: "take (length (encodeInt x)) (drop (2 * di + nat half) (nibbles data))
                   = map (\<lambda>b. b AND 0xf) (encodeInt x)"
  shows "\<exists>di' half'. decodeInt data di half = Inr (di', half', x)
           \<and> (half' = 0 \<or> half' = 1)
           \<and> 2 * di' + nat half' = 2 * di + nat half + length (encodeInt x)"
proof -
  let ?p = "2 * di + nat half"
  let ?l = "encodeInt_l x"
  let ?h = "if x AND mask_f = 0 then word_of_nat (zero_run x)
            else if x AND mask_f = mask_f then word_of_nat (one_run x + 8) else (0 :: u8)"
  let ?r0 = "if x AND mask_f = 0 then 0
            else if x AND mask_f = mask_f then fill_ones (one_run x) 0 else (0 :: u32)"
  have l: "?l \<le> 8" by (rule encodeInt_l_le)
  from stream have "length (take (length (encodeInt x)) (drop ?p (nibbles data))) = length (encodeInt x)"
    by simp
  then have len: "?p + (1 + (8 - ?l)) \<le> 2 * length data"
    by (simp add: length_encodeInt)
  have nth: "nibbles data ! (?p + k) = encodeInt x ! k AND 0xf" if "k < 1 + (8 - ?l)" for k
  proof -
    from that have k: "k < length (encodeInt x)" by (simp add: length_encodeInt)
    then have "take (length (encodeInt x)) (drop ?p (nibbles data)) ! k = nibbles data ! (?p + k)"
      using len by simp
    with stream k show ?thesis by simp
  qed
  have hmask: "?h AND 0xf = ?h"
    using header_cases(3) [OF zero_run_le [of x]] header_ones(3) [OF _ one_run_le [of x]] one_run_pos [of x]
    by simp
  from nth [of 0] have head: "nibbles data ! ?p = ?h"
    using hmask by (simp add: encodeInt_eq)
  have h: "(?h \<le> 8 \<and> unat ?h = ?l \<and> ?r0 = 0) \<or> (\<not> ?h \<le> 8 \<and> unat ?h - 8 = ?l \<and> ?r0 = fill_ones ?l 0)"
    using header_cases(1,2) [OF zero_run_le [of x]] header_ones(1,2) [OF _ one_run_le [of x]] one_run_pos [of x]
    by (simp add: encodeInt_l_def Let_def)
  have rest: "\<forall>k<8 - ?l. nibbles data ! (?p + 1 + k) = ucast (signed_drop_bit (4 * k) x) AND 0xf"
  proof (intro allI impI)
    fix k assume k: "k < 8 - ?l"
    then have "nibbles data ! (?p + Suc k) = encodeInt x ! Suc k AND 0xf"
      by (intro nth) simp
    with k show "nibbles data ! (?p + 1 + k) = ucast (signed_drop_bit (4 * k) x) AND 0xf"
      by (simp add: encodeInt_eq nth_rest_halfbytes)
  qed
  have x: "?r0 OR take_bit (4 * (8 - ?l)) x = x"
    using restore_zero [of x] restore_ones [of x] restore_full [of x]
    by (simp add: encodeInt_l_def Let_def)
  from decodeInt_stream [OF half l len head h rest] x show ?thesis
    by (simp add: length_encodeInt)
qed

section \<open>The source's integer encoding against the spec's words\<close>

lemma nibble_mask32: "(0xf :: u32) = mask 4"
  by (simp add: mask_eq_exp_minus_1)

lemma bit_halfbyte_at:
  "bit (halfbyte_at x i) b \<longleftrightarrow> b < 4 \<and> bit x (4 * i + b)"
proof -
  have "bit (halfbyte_at x i) b \<longleftrightarrow> b < 8 \<and> (bit x (4 * i + b) \<and> b < 4)"
    unfolding halfbyte_at_def nibble_mask32
    by (auto simp add: bit_ucast_iff bit_and_iff bit_drop_bit_eq bit_mask_iff)
  then show ?thesis by auto
qed

lemma bit_nibble_f: "bit (0xf :: u8) b \<longleftrightarrow> b < 4"
proof -
  have "bit (mask 4 :: u8) b \<longleftrightarrow> b < 4" by (auto simp add: bit_mask_iff)
  then show ?thesis unfolding nibble_mask .
qed

lemma halfbyte_at_zero_iff:
  "halfbyte_at x i = 0 \<longleftrightarrow> (\<forall>b<4. \<not> bit x (4 * i + b))"
  by (auto simp add: bit_eq_iff bit_halfbyte_at)

lemma halfbyte_at_f_iff:
  "halfbyte_at x i = 0xf \<longleftrightarrow> (\<forall>b<4. bit x (4 * i + b))"
proof
  assume a: "halfbyte_at x i = 0xf"
  show "\<forall>b<4. bit x (4 * i + b)"
  proof (intro allI impI)
    fix b :: nat assume b: "b < 4"
    then have "bit (halfbyte_at x i) b" unfolding a by (simp only: bit_nibble_f)
    then show "bit x (4 * i + b)" by (simp add: bit_halfbyte_at)
  qed
next
  assume r: "\<forall>b<4. bit x (4 * i + b)"
  show "halfbyte_at x i = 0xf"
  proof (rule bit_eqI)
    fix n
    show "bit (halfbyte_at x i) n = bit (0xf :: u8) n"
      unfolding bit_halfbyte_at bit_nibble_f using r by auto
  qed
qed

text \<open>A shifted mask covers the top \<open>i + 1\<close> half bytes.\<close>

lemma top_bits_halfbytes:
  fixes i :: nat and P :: "nat \<Rightarrow> bool"
  assumes "i < 8"
  shows "(\<forall>b. 28 - 4 * i \<le> b \<and> b < 32 \<longrightarrow> P b) \<longleftrightarrow> (\<forall>j\<le>i. \<forall>c<4. P (4 * (7 - j) + c))"
proof
  assume l: "\<forall>b. 28 - 4 * i \<le> b \<and> b < 32 \<longrightarrow> P b"
  show "\<forall>j\<le>i. \<forall>c<4. P (4 * (7 - j) + c)"
  proof (intro allI impI)
    fix j c :: nat assume "j \<le> i" "c < 4"
    with assms have "28 - 4 * i \<le> 4 * (7 - j) + c \<and> 4 * (7 - j) + c < 32" by linarith
    with l show "P (4 * (7 - j) + c)" by blast
  qed
next
  assume r: "\<forall>j\<le>i. \<forall>c<4. P (4 * (7 - j) + c)"
  show "\<forall>b. 28 - 4 * i \<le> b \<and> b < 32 \<longrightarrow> P b"
  proof (intro allI impI)
    fix b :: nat assume b: "28 - 4 * i \<le> b \<and> b < 32"
    let ?j = "7 - b div 4" and ?c = "b mod 4"
    from b assms have "?j \<le> i" by linarith
    moreover have "?c < 4" by simp
    moreover have "4 * (7 - ?j) + ?c = b"
    proof -
      from b have "b div 4 \<le> 7" by presburger
      then have "7 - ?j = b div 4" by simp
      then show ?thesis by simp
    qed
    ultimately show "P b" using r by metis
  qed
qed

lemma and_shifted_mask_zero_iff:
  assumes "i < 8"
  shows "x AND shifted_mask i = 0 \<longleftrightarrow> (\<forall>j\<le>i. halfbyte_at x (7 - j) = 0)"
proof -
  have "x AND shifted_mask i = 0 \<longleftrightarrow> (\<forall>b. 28 - 4 * i \<le> b \<and> b < 32 \<longrightarrow> \<not> bit x b)"
    using assms by (auto simp add: bit_eq_iff bit_and_iff bit_shifted_mask dest: bit_imp_le_length)
  also have "\<dots> \<longleftrightarrow> (\<forall>j\<le>i. \<forall>c<4. \<not> bit x (4 * (7 - j) + c))"
    by (rule top_bits_halfbytes [OF assms])
  finally show ?thesis by (simp add: halfbyte_at_zero_iff)
qed

lemma and_shifted_mask_ones_iff:
  assumes "i < 8"
  shows "x AND shifted_mask i = shifted_mask i \<longleftrightarrow> (\<forall>j\<le>i. halfbyte_at x (7 - j) = 0xf)"
proof -
  have "x AND shifted_mask i = shifted_mask i \<longleftrightarrow> (\<forall>b. 28 - 4 * i \<le> b \<and> b < 32 \<longrightarrow> bit x b)"
    using assms by (auto simp add: bit_eq_iff bit_and_iff bit_shifted_mask dest: bit_imp_le_length)
  also have "\<dots> \<longleftrightarrow> (\<forall>j\<le>i. \<forall>c<4. bit x (4 * (7 - j) + c))"
    by (rule top_bits_halfbytes [OF assms])
  finally show ?thesis by (simp add: halfbyte_at_f_iff)
qed

lemma leading_count_props:
  "leading_count v x \<le> 8"
  "\<forall>j<leading_count v x. halfbyte_at x (7 - j) = v"
  "leading_count v x < 8 \<longrightarrow> halfbyte_at x (7 - leading_count v x) \<noteq> v"
proof -
  let ?P = "\<lambda>i. halfbyte_at x i = v"
  let ?xs = "rev [0..<8]"
  let ?l = "length (takeWhile ?P ?xs)"
  have nth: "?xs ! j = 7 - j" if "j < 8" for j
    using that by (simp add: rev_nth)
  have le: "?l \<le> 8" using length_takeWhile_le [of ?P ?xs] by simp
  then show "leading_count v x \<le> 8" by (simp add: leading_count_def)
  have "?P (?xs ! j)" if "j < ?l" for j
  proof -
    from that have "takeWhile ?P ?xs ! j \<in> set (takeWhile ?P ?xs)" by (rule nth_mem)
    then have "?P (takeWhile ?P ?xs ! j)" by (rule set_takeWhileD [THEN conjunct2])
    with that show ?thesis by (simp only: takeWhile_nth)
  qed
  then have "halfbyte_at x (7 - j) = v" if "j < ?l" for j
  proof -
    from that le have "j < 8" by simp
    from nth [OF this] \<open>\<And>j. j < ?l \<Longrightarrow> ?P (?xs ! j)\<close> [OF that] show ?thesis by simp
  qed
  then show "\<forall>j<leading_count v x. halfbyte_at x (7 - j) = v"
    by (simp add: leading_count_def)
  have "\<not> ?P (?xs ! ?l)" if "?l < 8"
    using that by (intro nth_length_takeWhile) simp
  then have "halfbyte_at x (7 - ?l) \<noteq> v" if "?l < 8"
    using that nth [OF that] by simp
  then show "leading_count v x < 8 \<longrightarrow> halfbyte_at x (7 - leading_count v x) \<noteq> v"
    by (simp add: leading_count_def)
qed

lemma zero_run_leading_count: "zero_run x = leading_count 0 x"
proof -
  let ?l = "leading_count 0 x"
  let ?Q = "\<lambda>i. x AND shifted_mask i \<noteq> 0"
  note p = leading_count_props [of 0 x]
  have nq: "\<not> ?Q i" if "i < ?l" for i
  proof -
    from that p(1) have "i < 8" by simp
    moreover have "\<forall>j\<le>i. halfbyte_at x (7 - j) = 0" using p(2) that by simp
    ultimately show ?thesis by (simp add: and_shifted_mask_zero_iff)
  qed
  show ?thesis
  proof (cases "?l < 8")
    case False
    with p(1) have l: "?l = 8" by simp
    then have "find ?Q [0..<8] = None"
      using nq by (auto simp add: find_None_iff)
    with l show ?thesis by (simp add: zero_run_def)
  next
    case True
    with p(3) have "halfbyte_at x (7 - ?l) \<noteq> 0" by simp
    then have "?Q ?l" using True by (auto simp add: and_shifted_mask_zero_iff)
    with True nq have "find ?Q [0..<8] = Some ?l"
      by (auto simp add: find_Some_iff)
    then show ?thesis by (simp add: zero_run_def)
  qed
qed

lemma one_run_leading_count: "one_run x = min 7 (leading_count 0xf x)"
proof -
  let ?l = "leading_count 0xf x"
  let ?Q = "\<lambda>i. x AND shifted_mask i \<noteq> shifted_mask i"
  note p = leading_count_props [of "0xf" x]
  have nq: "\<not> ?Q i" if "i < ?l" for i
  proof -
    from that p(1) have "i < 8" by simp
    moreover have "\<forall>j\<le>i. halfbyte_at x (7 - j) = 0xf" using p(2) that by simp
    ultimately show ?thesis by (simp add: and_shifted_mask_ones_iff)
  qed
  show ?thesis
  proof (cases "?l < 8")
    case False
    with p(1) have l: "?l = 8" by simp
    then have "find ?Q [0..<8] = None"
      using nq by (auto simp add: find_None_iff)
    with l show ?thesis by (simp add: one_run_def)
  next
    case True
    with p(3) have "halfbyte_at x (7 - ?l) \<noteq> 0xf" by simp
    then have "?Q ?l" using True by (auto simp add: and_shifted_mask_ones_iff)
    with True nq have "find ?Q [0..<8] = Some ?l"
      by (auto simp add: find_Some_iff)
    with True show ?thesis by (simp add: one_run_def)
  qed
qed

lemma top_halfbyte_zero: "x AND mask_f = 0 \<longleftrightarrow> halfbyte_at x 7 = 0"
proof -
  have "shifted_mask 0 = mask_f" by (simp add: shifted_mask_def)
  with and_shifted_mask_zero_iff [of 0 x] show ?thesis by simp
qed

lemma top_halfbyte_ones: "x AND mask_f = mask_f \<longleftrightarrow> halfbyte_at x 7 = 0xf"
proof -
  have "shifted_mask 0 = mask_f" by (simp add: shifted_mask_def)
  with and_shifted_mask_ones_iff [of 0 x] show ?thesis by simp
qed

lemma encodeInt_l_spec: "encodeInt_l x = spec_l x"
  by (simp add: encodeInt_l_def spec_l_def Let_def top_halfbyte_zero top_halfbyte_ones
      zero_run_leading_count one_run_leading_count)

lemma rest_halfbyte_low:
  assumes "k < 8"
  shows "(ucast (signed_drop_bit (4 * k) x) :: u8) AND 0xf = halfbyte_at x k"
proof (rule bit_eqI)
  fix n
  show "bit ((ucast (signed_drop_bit (4 * k) x) :: u8) AND 0xf) n = bit (halfbyte_at x k) n"
    unfolding bit_and_iff bit_nibble_f bit_halfbyte_at
    using assms by (auto simp add: bit_ucast_iff bit_signed_drop_bit_iff)
qed

lemma rest_halfbytes_spec:
  "map (\<lambda>b. b AND 0xf) (rest_halfbytes x l) = map (halfbyte_at x) [0..<8 - l]"
proof (rule nth_equalityI)
  show "length (map (\<lambda>b. b AND 0xf) (rest_halfbytes x l)) = length (map (halfbyte_at x) [0..<8 - l])"
    by simp
next
  fix k assume "k < length (map (\<lambda>b. b AND 0xf) (rest_halfbytes x l))"
  then have k: "k < 8 - l" by simp
  then have "k < 8" by simp
  from rest_halfbyte_low [OF this, of x] k
  show "map (\<lambda>b. b AND 0xf) (rest_halfbytes x l) ! k = map (halfbyte_at x) [0..<8 - l] ! k"
    by (simp add: nth_rest_halfbytes)
qed

lemma encodeInt_spec: "map (\<lambda>b. b AND 0xf) (encodeInt x) = spec_encodeInt x"
proof -
  have l: "encodeInt_l x = spec_l x" by (rule encodeInt_l_spec)
  have l8: "spec_l x \<le> 8" using encodeInt_l_le [of x] l by simp
  consider (z) "halfbyte_at x 7 = 0" | (o) "halfbyte_at x 7 \<noteq> 0" "halfbyte_at x 7 = 0xf"
    | (n) "halfbyte_at x 7 \<noteq> 0" "halfbyte_at x 7 \<noteq> 0xf"
    by blast
  then show ?thesis
  proof cases
    case z
    then have m: "x AND mask_f = 0" by (simp add: top_halfbyte_zero)
    with l have zr: "zero_run x = spec_l x" by (simp add: encodeInt_l_def)
    from z m show ?thesis
      by (simp add: encodeInt_eq spec_encodeInt_def zr l rest_halfbytes_spec header_cases(3) [OF l8])
  next
    case o
    then have m: "x AND mask_f \<noteq> 0" "x AND mask_f = mask_f"
      by (simp_all add: top_halfbyte_zero top_halfbyte_ones)
    with l have r: "one_run x = spec_l x" by (simp add: encodeInt_l_def)
    have "0 < spec_l x" "spec_l x \<le> 7"
      using one_run_pos [OF m(2)] one_run_le [of x] r by simp_all
    from header_ones(3) [OF this] o m show ?thesis
      by (simp add: encodeInt_eq spec_encodeInt_def r l rest_halfbytes_spec)
  next
    case n
    then have m: "x AND mask_f \<noteq> 0" "x AND mask_f \<noteq> mask_f"
      by (simp_all add: top_halfbyte_zero top_halfbyte_ones)
    with l have "spec_l x = 0" by (simp add: encodeInt_l_def)
    with n m l show ?thesis
      by (simp add: encodeInt_eq spec_encodeInt_def rest_halfbytes_spec)
  qed
qed

section \<open>The test on the last half byte\<close>

lemma decodeInt_last_eight:
  assumes "Suc di = length data" "data ! di AND 0xf = 0x8"
  shows "decodeInt data di 1 = Inr (length data, 0, 0)"
  using assms by (simp add: decodeInt_def read_halfbyte_def rd_def Let_def)

lemma decodeCount_loop_end: "decodeCount_loop data (length data, half, result, ri) = Inr (result, ri)"
  by (subst decodeCount_loop.simps) simp

lemma decodeLinear_loop_end:
  "decodeLinear_loop data (ints1, ints2, length data, half, result, ri) = Inr (result, ri)"
  by (subst decodeLinear_loop.simps) simp

section \<open>The two-byte float loops\<close>

lemma length_resize [simp]: "length (resize v n) = n"
  by (simp add: resize_def)

lemma decode2ByteFloat_loop_even:
  assumes "even i" "even dataSize" "dataSize \<le> length data" "i \<le> dataSize"
    and "ri = i div 2" "length result = dataSize div 2"
  shows "\<exists>r. decode2ByteFloat_loop data dataSize i result ri = Inr r
           \<and> length r = dataSize div 2
           \<and> (\<forall>k<ri. r ! k = result ! k)
           \<and> (\<forall>k. ri \<le> k \<and> k < dataSize div 2 \<longrightarrow> r ! k = two_byte_value data k)"
  using assms
proof (induction data dataSize i result ri rule: decode2ByteFloat_loop.induct)
  case (1 data dataSize i result ri)
  show ?case
  proof (cases "i < dataSize")
    case False
    with "1.prems" have "i = dataSize" by simp
    with "1.prems" show ?thesis
      by (subst decode2ByteFloat_loop.simps) simp
  next
    case True
    with "1.prems" have i1: "i + 1 < dataSize" by presburger
    with "1.prems" have ri: "ri < length result" by presburger
    let ?fp = "ucast (data ! i) OR push_bit 8 (ucast (data ! (i + 1))) :: u16"
    let ?v = "exp (real (unat ?fp) / TWO_BYTE_FLOAT_FIXED_POINT)"
    have rda: "rd data i = Inr (data ! i)" and rdb: "rd data (i + 1) = Inr (data ! (i + 1))"
      using i1 "1.prems"(3) by (simp_all add: rd_def)
    have w: "wr result ri ?v = Inr (result[ri := ?v])"
      using ri by (simp add: wr_def)
    have step: "decode2ByteFloat_loop data dataSize i result ri
        = decode2ByteFloat_loop data dataSize (i + 2) (result[ri := ?v]) (ri + 1)"
      using True rda rdb w by (subst decode2ByteFloat_loop.simps) (simp add: Let_def)
    have "\<exists>r. decode2ByteFloat_loop data dataSize (i + 2) (result[ri := ?v]) (ri + 1) = Inr r
           \<and> length r = dataSize div 2
           \<and> (\<forall>k<ri + 1. r ! k = (result[ri := ?v]) ! k)
           \<and> (\<forall>k. ri + 1 \<le> k \<and> k < dataSize div 2 \<longrightarrow> r ! k = two_byte_value data k)"
    proof (rule "1.IH" [OF True rda rdb refl w])
      show "even (i + 2)" using "1.prems" by simp
      show "even dataSize" by fact
      show "dataSize \<le> length data" by fact
      show "i + 2 \<le> dataSize" using i1 by simp
      show "ri + 1 = (i + 2) div 2" using "1.prems" by simp
      show "length (result[ri := ?v]) = dataSize div 2" using "1.prems" by simp
    qed
    then obtain r where r: "decode2ByteFloat_loop data dataSize (i + 2) (result[ri := ?v]) (ri + 1) = Inr r"
      and len: "length r = dataSize div 2"
      and old: "\<forall>k<ri + 1. r ! k = (result[ri := ?v]) ! k"
      and new: "\<forall>k. ri + 1 \<le> k \<and> k < dataSize div 2 \<longrightarrow> r ! k = two_byte_value data k"
      by blast
    have "2 * ri = i" using "1.prems" by auto
    then have v: "?v = two_byte_value data ri" by (simp add: two_byte_value_def)
    have "r ! ri = ?v" using old ri by simp
    with v new have "\<forall>k. ri \<le> k \<and> k < dataSize div 2 \<longrightarrow> r ! k = two_byte_value data k"
      by (metis Suc_eq_plus1 le_antisym not_less_eq_eq)
    moreover have "\<forall>k<ri. r ! k = result ! k" using old by simp
    ultimately show ?thesis using step r len by simp
  qed
qed

lemma decode2ByteFloat_loop_odd_read:
  assumes "even i" "odd dataSize" "dataSize = length data" "i < dataSize"
    and "ri = i div 2" "length result = dataSize div 2"
  shows "decode2ByteFloat_loop data dataSize i result ri = Inl (ReadOutOfBounds dataSize)"
  using assms
proof (induction data dataSize i result ri rule: decode2ByteFloat_loop.induct)
  case (1 data dataSize i result ri)
  have rda: "rd data i = Inr (data ! i)" using "1.prems" by (simp add: rd_def)
  show ?case
  proof (cases "i + 1 = dataSize")
    case True
    then have "rd data (i + 1) = Inl (ReadOutOfBounds dataSize)"
      using "1.prems" by (simp add: rd_def)
    with rda "1.prems" show ?thesis
      by (subst decode2ByteFloat_loop.simps) simp
  next
    case False
    with "1.prems" have i2: "i + 2 < dataSize" by presburger
    with "1.prems" have ri: "ri < length result" by presburger
    let ?fp = "ucast (data ! i) OR push_bit 8 (ucast (data ! (i + 1))) :: u16"
    let ?v = "exp (real (unat ?fp) / TWO_BYTE_FLOAT_FIXED_POINT)"
    have rdb: "rd data (i + 1) = Inr (data ! (i + 1))"
      using i2 "1.prems"(3) by (simp add: rd_def)
    have w: "wr result ri ?v = Inr (result[ri := ?v])"
      using ri by (simp add: wr_def)
    have step: "decode2ByteFloat_loop data dataSize i result ri
        = decode2ByteFloat_loop data dataSize (i + 2) (result[ri := ?v]) (ri + 1)"
      using "1.prems"(4) rda rdb w by (subst decode2ByteFloat_loop.simps) (simp add: Let_def)
    have "decode2ByteFloat_loop data dataSize (i + 2) (result[ri := ?v]) (ri + 1)
        = Inl (ReadOutOfBounds dataSize)"
    proof (rule "1.IH" [OF "1.prems"(4) rda rdb refl w])
      show "even (i + 2)" using "1.prems" by simp
      show "odd dataSize" by fact
      show "dataSize = length data" by fact
      show "i + 2 < dataSize" by fact
      show "ri + 1 = (i + 2) div 2" using "1.prems" by simp
      show "length (result[ri := ?v]) = dataSize div 2" using "1.prems" by simp
    qed
    with step show ?thesis by simp
  qed
qed

lemma decode2ByteFloat_loop_odd_write:
  assumes "even i" "odd dataSize" "dataSize < length data" "i < dataSize"
    and "ri = i div 2" "length result = dataSize div 2"
  shows "decode2ByteFloat_loop data dataSize i result ri = Inl (WriteOutOfBounds (dataSize div 2))"
  using assms
proof (induction data dataSize i result ri rule: decode2ByteFloat_loop.induct)
  case (1 data dataSize i result ri)
  have rda: "rd data i = Inr (data ! i)" and rdb: "rd data (i + 1) = Inr (data ! (i + 1))"
    using "1.prems" by (simp_all add: rd_def)
  let ?fp = "ucast (data ! i) OR push_bit 8 (ucast (data ! (i + 1))) :: u16"
  let ?v = "exp (real (unat ?fp) / TWO_BYTE_FLOAT_FIXED_POINT)"
  show ?case
  proof (cases "i + 1 = dataSize")
    case True
    with "1.prems" have "ri = dataSize div 2" by presburger
    with "1.prems" have "wr result ri ?v = Inl (WriteOutOfBounds (dataSize div 2))"
      by (simp add: wr_def)
    with rda rdb "1.prems" show ?thesis
      by (subst decode2ByteFloat_loop.simps) (simp add: Let_def)
  next
    case False
    with "1.prems" have i2: "i + 2 < dataSize" by presburger
    with "1.prems" have ri: "ri < length result" by presburger
    have w: "wr result ri ?v = Inr (result[ri := ?v])"
      using ri by (simp add: wr_def)
    have step: "decode2ByteFloat_loop data dataSize i result ri
        = decode2ByteFloat_loop data dataSize (i + 2) (result[ri := ?v]) (ri + 1)"
      using "1.prems"(4) rda rdb w by (subst decode2ByteFloat_loop.simps) (simp add: Let_def)
    have "decode2ByteFloat_loop data dataSize (i + 2) (result[ri := ?v]) (ri + 1)
        = Inl (WriteOutOfBounds (dataSize div 2))"
    proof (rule "1.IH" [OF "1.prems"(4) rda rdb refl w])
      show "even (i + 2)" using "1.prems" by simp
      show "odd dataSize" by fact
      show "dataSize < length data" by fact
      show "i + 2 < dataSize" by fact
      show "ri + 1 = (i + 2) div 2" using "1.prems" by simp
      show "length (result[ri := ?v]) = dataSize div 2" using "1.prems" by simp
    qed
    with step show ?thesis by simp
  qed
qed

section \<open>The encoders\<close>

lemma length_le32 [simp]: "length (le32 w) = 4"
  by (simp add: le32_def)

lemma le32_eq: "le32 w = [ucast (drop_bit (0 * 8) w AND 0xff), ucast (drop_bit (1 * 8) w AND 0xff),
    ucast (drop_bit (2 * 8) w AND 0xff), ucast (drop_bit (3 * 8) w AND 0xff)]"
  by (simp add: le32_def upt_conv_Cons)

lemma length_eight:
  "length ys = 8 \<Longrightarrow> \<exists>a0 a1 a2 a3 a4 a5 a6 a7. ys = [a0, a1, a2, a3, a4, a5, a6, a7]"
  by (auto simp add: eval_nat_numeral length_Suc_conv)

lemma eight_elems:
  assumes "8 \<le> length xs"
  shows "\<exists>a0 a1 a2 a3 a4 a5 a6 a7 r. xs = a0 # a1 # a2 # a3 # a4 # a5 # a6 # a7 # r"
proof -
  have "xs = take 8 xs @ drop 8 xs" by simp
  moreover from assms have "length (take 8 xs) = 8" by simp
  from length_eight [OF this]
  obtain a0 a1 a2 a3 a4 a5 a6 a7 where "take 8 xs = [a0, a1, a2, a3, a4, a5, a6, a7]"
    by blast
  ultimately have "xs = a0 # a1 # a2 # a3 # a4 # a5 # a6 # a7 # drop 8 xs"
    by (metis append_Cons append_Nil)
  then show ?thesis by blast
qed

lemma encodeLinear_header_ok:
  assumes "8 \<le> length result"
  shows "encodeLinear_header result a b [0..<4] = Inr (le32 a @ le32 b @ drop 8 result)"
proof -
  from eight_elems [OF assms] obtain a0 a1 a2 a3 a4 a5 a6 a7 r
    where r: "result = a0 # a1 # a2 # a3 # a4 # a5 # a6 # a7 # r" by blast
  have "[0..<4] = [0, 1, 2, 3]" by (simp add: upt_conv_Cons)
  then show ?thesis
    unfolding r le32_eq by (simp add: wr_def)
qed

lemma encodeLinear_header_fault:
  assumes "length result < 8"
  shows "\<exists>k. encodeLinear_header result a b [0..<4] = Inl (WriteOutOfBounds k)"
proof -
  have u: "[0..<4] = [0, 1, 2, 3]" by (simp add: upt_conv_Cons)
  from assms consider "length result = 0" | "length result = 1" | "length result = 2"
    | "length result = 3" | "length result = 4" | "length result = 5" | "length result = 6"
    | "length result = 7"
    by linarith
  then show ?thesis
    by cases (auto simp add: u wr_def)
qed

lemma pack_pairs_short: "length hs < 2 \<Longrightarrow> pack_pairs hs = []"
  by (cases hs rule: pack_pairs.cases) simp_all

lemma length_pack_pairs [simp]: "length (pack_pairs hs) = length hs div 2"
  by (induction hs rule: pack_pairs.induct) simp_all

lemma carry_halfbyte_eq: "carry_halfbyte hs = (if odd (length hs) then [last hs] else [])"
  by (cases "hs = []") (auto simp add: carry_halfbyte_def last_conv_nth odd_iff_mod_2_eq_one)

lemma pack_pairs_append_even:
  "even (length xs) \<Longrightarrow> pack_pairs (xs @ ys) = pack_pairs xs @ pack_pairs ys"
  by (induction xs rule: pack_pairs.induct) simp_all

lemma pack_pairs_append_odd:
  "odd (length xs) \<Longrightarrow> pack_pairs (xs @ ys) = pack_pairs xs @ pack_pairs (last xs # ys)"
  by (induction xs rule: pack_pairs.induct) auto

lemma pack_pairs_carry: "pack_pairs (xs @ ys) = pack_pairs xs @ pack_pairs (carry_halfbyte xs @ ys)"
  by (simp add: carry_halfbyte_eq pack_pairs_append_even pack_pairs_append_odd)

lemma carry_halfbyte_carry: "carry_halfbyte (carry_halfbyte xs @ ys) = carry_halfbyte (xs @ ys)"
  by (cases "ys = []") (auto simp add: carry_halfbyte_eq)

lemma length_carry_halfbyte: "length (carry_halfbyte xs) = length xs mod 2"
  by (auto simp add: carry_halfbyte_eq odd_iff_mod_2_eq_one)

lemma length_carry_le: "length (carry_halfbyte xs) \<le> 1"
  by (simp add: carry_halfbyte_eq)

lemma pack_halfbytes_ok:
  assumes "odd hbi" "ri + (length hb + 1 - hbi) div 2 \<le> length result"
  shows "pack_halfbytes hb hbi result ri
     = Inr (take ri result @ pack_pairs (drop (hbi - 1) hb) @ drop (ri + (length hb + 1 - hbi) div 2) result,
            ri + (length hb + 1 - hbi) div 2)"
  using assms
proof (induction hb hbi result ri rule: pack_halfbytes.induct)
  case (1 hb hbi result ri)
  show ?case
  proof (cases "hbi < length hb")
    case False
    then have "(length hb + 1 - hbi) div 2 = 0" by simp
    moreover have "pack_pairs (drop (hbi - 1) hb) = []"
      using False by (intro pack_pairs_short) simp
    ultimately show ?thesis using False
      by (subst pack_halfbytes.simps) simp
  next
    case True
    let ?v = "push_bit 4 (hb ! (hbi - 1)) OR (hb ! hbi AND 0xf)"
    let ?k = "(length hb + 1 - (hbi + 2)) div 2"
    from "1.prems"(1) have h1: "1 \<le> hbi" by (auto elim: oddE)
    from True h1 have k: "(length hb + 1 - hbi) div 2 = Suc ?k" by linarith
    with "1.prems"(2) have ri: "ri < length result" by simp
    then have w: "wr result ri ?v = Inr (result[ri := ?v])" by (simp add: wr_def)
    have "pack_halfbytes hb (hbi + 2) (result[ri := ?v]) (ri + 1)
        = Inr (take (ri + 1) (result[ri := ?v]) @ pack_pairs (drop (hbi + 2 - 1) hb)
                 @ drop (ri + 1 + ?k) (result[ri := ?v]), ri + 1 + ?k)"
    proof (rule "1.IH" [OF True w])
      show "odd (hbi + 2)" using "1.prems"(1) by simp
      show "ri + 1 + ?k \<le> length (result[ri := ?v])" using "1.prems"(2) k by simp
    qed
    moreover have "take (ri + 1) (result[ri := ?v]) = take ri result @ [?v]"
      using ri by (simp add: take_Suc_conv_app_nth)
    moreover have "drop (ri + 1 + ?k) (result[ri := ?v]) = drop (ri + 1 + ?k) result"
      by simp
    moreover have "drop (hbi - 1) hb = hb ! (hbi - 1) # hb ! hbi # drop (hbi + 2 - 1) hb"
    proof -
      from True h1 have "drop (hbi - 1) hb = hb ! (hbi - 1) # drop (Suc (hbi - 1)) hb"
        by (intro Cons_nth_drop_Suc [symmetric]) simp
      moreover from h1 have "Suc (hbi - 1) = hbi" by simp
      moreover from True have "drop hbi hb = hb ! hbi # drop (Suc hbi) hb"
        by (intro Cons_nth_drop_Suc [symmetric])
      ultimately show ?thesis by simp
    qed
    ultimately show ?thesis using True w k
      by (subst pack_halfbytes.simps) simp
  qed
qed

lemma halfbyte_stream_simps [simp]:
  "halfbyte_stream [] = []"
  "halfbyte_stream (x # xs) = encodeInt x @ halfbyte_stream xs"
  by (simp_all add: halfbyte_stream_def)

lemma splice_length:
  assumes "ri + k \<le> length result" "length w = k"
  shows "length (take ri result @ w @ drop (ri + k) result) = length result"
  using assms by simp

lemma splice_take:
  assumes "ri + k \<le> length result" "length w = k"
  shows "take (ri + k) (take ri result @ w @ drop (ri + k) result) = take ri result @ w"
  using assms by simp

lemma splice_drop:
  assumes "ri + k \<le> length result" "length w = k"
  shows "drop (ri + k + m) (take ri result @ w @ drop (ri + k) result) = drop (ri + k + m) result"
  using assms by (simp add: add.commute add.left_commute)

lemma carry_stream_length:
  "length hb div 2 + (length (carry_halfbyte hb) + m) div 2 = (length hb + m) div 2"
  unfolding length_carry_halfbyte by presburger

lemma pack_carry_loop_step:
  assumes cap: "ri + (length hb + length E) div 2 \<le> length result"
  shows "pack_halfbytes hb 1 result ri
           = Inr (take ri result @ pack_pairs hb @ drop (ri + length hb div 2) result, ri + length hb div 2)"
    and "ri + length hb div 2 + (length (carry_halfbyte hb) + length E) div 2
           \<le> length (take ri result @ pack_pairs hb @ drop (ri + length hb div 2) result)"
    and "(carry_halfbyte (carry_halfbyte hb @ E),
          take (ri + length hb div 2) (take ri result @ pack_pairs hb @ drop (ri + length hb div 2) result)
            @ pack_pairs (carry_halfbyte hb @ E)
            @ drop (ri + length hb div 2 + length (carry_halfbyte hb @ E) div 2)
                (take ri result @ pack_pairs hb @ drop (ri + length hb div 2) result),
          ri + length hb div 2 + length (carry_halfbyte hb @ E) div 2)
         = (carry_halfbyte (hb @ E),
            take ri result @ pack_pairs (hb @ E) @ drop (ri + length (hb @ E) div 2) result,
            ri + length (hb @ E) div 2)"
proof -
  let ?k = "length hb div 2"
  let ?m = "length (carry_halfbyte hb @ E) div 2"
  let ?result' = "take ri result @ pack_pairs hb @ drop (ri + ?k) result"
  have le: "?k \<le> (length hb + length E) div 2" by (rule div_le_mono) simp
  with cap have cap1: "ri + ?k \<le> length result" by linarith
  have lw: "length (pack_pairs hb) = ?k" by simp
  from pack_halfbytes_ok [of 1 ri hb result] cap1
  show "pack_halfbytes hb 1 result ri = Inr (?result', ri + ?k)"
    by simp
  have len: "length ?result' = length result"
    by (rule splice_length [OF cap1 lw])
  have sum: "ri + ?k + ?m = ri + length (hb @ E) div 2"
    using carry_stream_length [of hb "length E"] by simp
  show "ri + ?k + (length (carry_halfbyte hb) + length E) div 2 \<le> length ?result'"
    unfolding len using cap carry_stream_length [of hb "length E"] by simp
  have t: "take (ri + ?k) ?result' = take ri result @ pack_pairs hb"
    by (rule splice_take [OF cap1 lw])
  have "drop (ri + ?k + ?m) ?result' = drop (ri + ?k + ?m) result"
    by (rule splice_drop [OF cap1 lw])
  then have d: "drop (ri + length (hb @ E) div 2) ?result' = drop (ri + length (hb @ E) div 2) result"
    unfolding sum .
  show "(carry_halfbyte (carry_halfbyte hb @ E),
          take (ri + ?k) ?result' @ pack_pairs (carry_halfbyte hb @ E) @ drop (ri + ?k + ?m) ?result',
          ri + ?k + ?m)
         = (carry_halfbyte (hb @ E),
            take ri result @ pack_pairs (hb @ E) @ drop (ri + length (hb @ E) div 2) result,
            ri + length (hb @ E) div 2)"
    unfolding sum unfolding t d carry_halfbyte_carry by (simp add: pack_pairs_carry [of hb E])
qed

lemma encodeLinear_loop_ok:
  assumes "n \<le> length data" "i \<le> n" "length carry \<le> 1"
    and "ri + (length carry + length (halfbyte_stream (residuals a b (drop i (take n data))))) div 2
           \<le> length result"
  shows "encodeLinear_loop data [i..<n] (a, b, carry, result, ri)
     = Inr (carry_halfbyte (carry @ halfbyte_stream (residuals a b (drop i (take n data)))),
            take ri result @ pack_pairs (carry @ halfbyte_stream (residuals a b (drop i (take n data))))
              @ drop (ri + length (carry @ halfbyte_stream (residuals a b (drop i (take n data)))) div 2) result,
            ri + length (carry @ halfbyte_stream (residuals a b (drop i (take n data)))) div 2)"
  using assms
proof (induction "n - i" arbitrary: i a b carry result ri)
  case 0
  then have "i = n" by simp
  moreover have "carry_halfbyte carry = carry"
    using "0.prems"(3) by (cases carry) (simp_all add: carry_halfbyte_def)
  moreover have "pack_pairs carry = []"
    using "0.prems"(3) by (intro pack_pairs_short) simp
  moreover have "length carry div 2 = 0" using "0.prems"(3) by simp
  ultimately show ?case using "0.prems"(1) by simp
next
  case (Suc k)
  then have i: "i < n" by simp
  with Suc.prems have il: "i < length data" by simp
  let ?c = "fixed_point (data ! i)"
  let ?diff = "?c - (b + (b - a))"
  let ?ds = "drop (Suc i) (take n data)"
  let ?E = "halfbyte_stream (residuals b ?c ?ds)"
  let ?hb = "carry @ encodeInt ?diff"
  have dr: "drop i (take n data) = data ! i # ?ds"
    using i il by (metis Cons_nth_drop_Suc length_take min.absorb2 nth_take Suc.prems(1))
  have st: "halfbyte_stream (residuals a b (drop i (take n data))) = encodeInt ?diff @ ?E"
    by (simp add: dr)
  have upt: "[i..<n] = i # [Suc i..<n]" using i by (simp add: upt_conv_Cons)
  have rdi: "rd data i = Inr (data ! i)" using il by (simp add: rd_def)
  let ?result' = "take ri result @ pack_pairs ?hb @ drop (ri + length ?hb div 2) result"
  let ?ri' = "ri + length ?hb div 2"
  have cap: "ri + (length ?hb + length ?E) div 2 \<le> length result"
    using Suc.prems(4) by (simp add: st add.assoc)
  note step = pack_carry_loop_step [OF cap]
  have "encodeLinear_loop data [Suc i..<n] (b, ?c, carry_halfbyte ?hb, ?result', ?ri')
      = Inr (carry_halfbyte (carry_halfbyte ?hb @ ?E),
             take ?ri' ?result' @ pack_pairs (carry_halfbyte ?hb @ ?E)
               @ drop (?ri' + length (carry_halfbyte ?hb @ ?E) div 2) ?result',
             ?ri' + length (carry_halfbyte ?hb @ ?E) div 2)"
  proof (rule Suc.hyps(1))
    show "k = n - Suc i" using Suc.hyps(2) by simp
    show "n \<le> length data" by fact
    show "Suc i \<le> n" using i by simp
    show "length (carry_halfbyte ?hb) \<le> 1" by (rule length_carry_le)
    show "?ri' + (length (carry_halfbyte ?hb) + length ?E) div 2 \<le> length ?result'"
      by (rule step(2))
  qed
  then have "encodeLinear_loop data [Suc i..<n] (b, ?c, carry_halfbyte ?hb, ?result', ?ri')
      = Inr (carry_halfbyte (?hb @ ?E),
             take ri result @ pack_pairs (?hb @ ?E) @ drop (ri + length (?hb @ ?E) div 2) result,
             ri + length (?hb @ ?E) div 2)"
    unfolding step(3) .
  then show ?case
    unfolding upt st using rdi step(1)
    by (simp add: Let_def fixed_point_def)
qed

lemma encodeCount_loop_ok:
  assumes "n \<le> length data" "i \<le> n" "length carry \<le> 1"
    and "ri + (length carry + length (halfbyte_stream (count_ints (drop i (take n data))))) div 2
           \<le> length result"
  shows "encodeCount_loop data [i..<n] (carry, result, ri)
     = Inr (carry_halfbyte (carry @ halfbyte_stream (count_ints (drop i (take n data)))),
            take ri result @ pack_pairs (carry @ halfbyte_stream (count_ints (drop i (take n data))))
              @ drop (ri + length (carry @ halfbyte_stream (count_ints (drop i (take n data)))) div 2) result,
            ri + length (carry @ halfbyte_stream (count_ints (drop i (take n data)))) div 2)"
  using assms
proof (induction "n - i" arbitrary: i carry result ri)
  case 0
  then have "i = n" by simp
  moreover have "carry_halfbyte carry = carry"
    using "0.prems"(3) by (cases carry) (simp_all add: carry_halfbyte_def)
  moreover have "pack_pairs carry = []"
    using "0.prems"(3) by (intro pack_pairs_short) simp
  moreover have "length carry div 2 = 0" using "0.prems"(3) by simp
  ultimately show ?case using "0.prems"(1) by (simp add: count_ints_def)
next
  case (Suc k)
  then have i: "i < n" by simp
  with Suc.prems have il: "i < length data" by simp
  let ?c = "ucast (double_to_size_t (data ! i + 0.5)) :: u32"
  let ?ds = "drop (Suc i) (take n data)"
  let ?E = "halfbyte_stream (count_ints ?ds)"
  let ?hb = "carry @ encodeInt ?c"
  have dr: "drop i (take n data) = data ! i # ?ds"
    using i il by (metis Cons_nth_drop_Suc length_take min.absorb2 nth_take Suc.prems(1))
  have st: "halfbyte_stream (count_ints (drop i (take n data))) = encodeInt ?c @ ?E"
    by (simp add: dr count_ints_def)
  have upt: "[i..<n] = i # [Suc i..<n]" using i by (simp add: upt_conv_Cons)
  have rdi: "rd data i = Inr (data ! i)" using il by (simp add: rd_def)
  let ?result' = "take ri result @ pack_pairs ?hb @ drop (ri + length ?hb div 2) result"
  let ?ri' = "ri + length ?hb div 2"
  have cap: "ri + (length ?hb + length ?E) div 2 \<le> length result"
    using Suc.prems(4) by (simp add: st add.assoc)
  note step = pack_carry_loop_step [OF cap]
  have "encodeCount_loop data [Suc i..<n] (carry_halfbyte ?hb, ?result', ?ri')
      = Inr (carry_halfbyte (carry_halfbyte ?hb @ ?E),
             take ?ri' ?result' @ pack_pairs (carry_halfbyte ?hb @ ?E)
               @ drop (?ri' + length (carry_halfbyte ?hb @ ?E) div 2) ?result',
             ?ri' + length (carry_halfbyte ?hb @ ?E) div 2)"
  proof (rule Suc.hyps(1))
    show "k = n - Suc i" using Suc.hyps(2) by simp
    show "n \<le> length data" by fact
    show "Suc i \<le> n" using i by simp
    show "length (carry_halfbyte ?hb) \<le> 1" by (rule length_carry_le)
    show "?ri' + (length (carry_halfbyte ?hb) + length ?E) div 2 \<le> length ?result'"
      by (rule step(2))
  qed
  then have "encodeCount_loop data [Suc i..<n] (carry_halfbyte ?hb, ?result', ?ri')
      = Inr (carry_halfbyte (?hb @ ?E),
             take ri result @ pack_pairs (?hb @ ?E) @ drop (ri + length (?hb @ ?E) div 2) result,
             ri + length (?hb @ ?E) div 2)"
    unfolding step(3) .
  then show ?case
    unfolding upt st using rdi step(1)
    by (simp add: Let_def)
qed

lemma length_pack_stream [simp]: "length (pack_stream hs) = (length hs + 1) div 2"
  unfolding pack_stream_def by (simp, presburger)

text \<open>The last, unpaired half byte is written with a low half of 0.\<close>

lemma flush_halfbyte_ok:
  assumes "ri + (length E + 1) div 2 \<le> length result"
  shows "flush_halfbyte (carry_halfbyte E)
           (take ri result @ pack_pairs E @ drop (ri + length E div 2) result) (ri + length E div 2)
         = Inr (take ri result @ pack_stream E @ drop (ri + (length E + 1) div 2) result,
                ri + (length E + 1) div 2)"
proof (cases "odd (length E)")
  case False
  then have "(length E + 1) div 2 = length E div 2" by presburger
  with False show ?thesis
    by (simp add: flush_halfbyte_def carry_halfbyte_eq pack_stream_def)
next
  case True
  let ?k = "length E div 2"
  let ?v = "push_bit 4 (last E) :: u8"
  from True have k: "(length E + 1) div 2 = Suc ?k" by presburger
  with assms have lt: "ri + ?k < length result" by simp
  have "(take ri result @ pack_pairs E @ drop (ri + ?k) result)[ri + ?k := ?v]
      = take ri result @ pack_pairs E @ ?v # drop (Suc (ri + ?k)) result"
  proof -
    have "drop (ri + ?k) result = result ! (ri + ?k) # drop (Suc (ri + ?k)) result"
      using lt by (intro Cons_nth_drop_Suc [symmetric])
    moreover have "length (take ri result @ pack_pairs E) = ri + ?k" using lt by simp
    ultimately show ?thesis
      by (metis append.assoc list_update_length)
  qed
  moreover from True have "length E mod 2 = Suc 0" by presburger
  ultimately show ?thesis using True k lt
    by (simp add: flush_halfbyte_def carry_halfbyte_eq pack_stream_def wr_def)
qed

lemma encodeLinear_ok:
  assumes "2 \<le> length data" "n \<le> length data"
    and "8 + (length (halfbyte_stream (residuals (fixed_point (data ! 0)) (fixed_point (data ! 1))
                 (drop 2 (take n data)))) + 1) div 2 \<le> length result"
  shows "encodeLinear data n result
     = Inr (le32 (fixed_point (data ! 0)) @ le32 (fixed_point (data ! 1))
              @ pack_stream (halfbyte_stream (residuals (fixed_point (data ! 0)) (fixed_point (data ! 1))
                   (drop 2 (take n data))))
              @ drop (8 + (length (halfbyte_stream (residuals (fixed_point (data ! 0)) (fixed_point (data ! 1))
                   (drop 2 (take n data)))) + 1) div 2) result,
            8 + (length (halfbyte_stream (residuals (fixed_point (data ! 0)) (fixed_point (data ! 1))
                   (drop 2 (take n data)))) + 1) div 2)"
proof -
  let ?a = "fixed_point (data ! 0)" and ?b = "fixed_point (data ! 1)"
  let ?E = "halfbyte_stream (residuals ?a ?b (drop 2 (take n data)))"
  let ?r1 = "le32 ?a @ le32 ?b @ drop 8 result"
  from assms(3) have r8: "8 \<le> length result" by simp
  have rd0: "rd data 0 = Inr (data ! 0)" and rd1: "rd data 1 = Inr (data ! 1)"
    using assms(1) by (auto simp add: rd_def)
  have hd: "encodeLinear_header result ?a ?b [0..<4] = Inr ?r1"
    by (rule encodeLinear_header_ok [OF r8])
  have len1: "length ?r1 = length result" using r8 by simp
  have t8: "take 8 ?r1 = le32 ?a @ le32 ?b" by simp
  have d8: "drop (8 + m) ?r1 = drop (8 + m) result" for m by (simp add: add.commute)
  have cap: "8 + (length ?E + 1) div 2 \<le> length ?r1" using assms(3) len1 by simp
  have loop: "encodeLinear_loop data [2..<n] (?a, ?b, [], ?r1, 8)
      = Inr (carry_halfbyte ?E, take 8 ?r1 @ pack_pairs ?E @ drop (8 + length ?E div 2) ?r1,
             8 + length ?E div 2)"
  proof (cases "2 \<le> n")
    case True
    have "8 + (length ([] :: u8 list) + length ?E) div 2 \<le> length ?r1"
      using cap by simp
    from encodeLinear_loop_ok [OF assms(2) True _ this] show ?thesis by simp
  next
    case False
    then have u: "[2..<n] = []" and d: "drop 2 (take n data) = []" by simp_all
    show ?thesis unfolding u d by (simp add: carry_halfbyte_def)
  qed
  from flush_halfbyte_ok [OF cap]
  have "flush_halfbyte (carry_halfbyte ?E) (take 8 ?r1 @ pack_pairs ?E @ drop (8 + length ?E div 2) ?r1)
          (8 + length ?E div 2)
      = Inr (take 8 ?r1 @ pack_stream ?E @ drop (8 + (length ?E + 1) div 2) ?r1, 8 + (length ?E + 1) div 2)" .
  then have fl: "flush_halfbyte (carry_halfbyte ?E) (take 8 ?r1 @ pack_pairs ?E @ drop (8 + length ?E div 2) ?r1)
          (8 + length ?E div 2)
      = Inr (le32 ?a @ le32 ?b @ pack_stream ?E @ drop (8 + (length ?E + 1) div 2) result,
             8 + (length ?E + 1) div 2)"
    unfolding d8 t8 by simp
  show ?thesis
    unfolding encodeLinear_def rd0 rd1
    using hd loop fl by (simp add: Let_def fixed_point_def)
qed

lemma encodeCount_ok:
  assumes "n \<le> length data"
    and "(length (halfbyte_stream (count_ints (take n data))) + 1) div 2 \<le> length result"
  shows "encodeCount data n result
     = Inr (pack_stream (halfbyte_stream (count_ints (take n data)))
              @ drop ((length (halfbyte_stream (count_ints (take n data))) + 1) div 2) result,
            (length (halfbyte_stream (count_ints (take n data))) + 1) div 2)"
proof -
  let ?E = "halfbyte_stream (count_ints (take n data))"
  have "0 + (length ([] :: u8 list) + length (halfbyte_stream (count_ints (drop 0 (take n data))))) div 2
      \<le> length result"
    using assms(2) by simp
  from encodeCount_loop_ok [OF assms(1) _ _ this]
  have loop: "encodeCount_loop data [0..<n] ([], result, 0)
      = Inr (carry_halfbyte ?E, take 0 result @ pack_pairs ?E @ drop (0 + length ?E div 2) result,
             0 + length ?E div 2)"
    by simp
  have "0 + (length ?E + 1) div 2 \<le> length result" using assms(2) by simp
  from flush_halfbyte_ok [OF this] loop show ?thesis
    by (simp add: encodeCount_def)
qed

lemma length_residuals [simp]: "length (residuals a b ds) = length ds"
  by (induction ds arbitrary: a b) simp_all

lemma length_encodeInt_le: "length (encodeInt x) \<le> 9"
  by (simp add: length_encodeInt)

lemma length_halfbyte_stream_le: "length (halfbyte_stream xs) \<le> 9 * length xs"
proof (induction xs)
  case Nil
  then show ?case by simp
next
  case (Cons x xs)
  with length_encodeInt_le [of x] show ?case by simp
qed

lemma encodeLinear_size:
  assumes "2 \<le> n" "n \<le> length data"
  shows "8 + (length (halfbyte_stream (residuals a b (drop 2 (take n data)))) + 1) div 2 \<le> 5 * n"
proof -
  have "length (halfbyte_stream (residuals a b (drop 2 (take n data)))) \<le> 9 * (n - 2)"
    using length_halfbyte_stream_le [of "residuals a b (drop 2 (take n data))"] assms by simp
  with assms(1) show ?thesis by linarith
qed

lemma encodeLinear_read_fault:
  assumes "length data < 2"
  shows "encodeLinear data dataSize result = Inl (ReadOutOfBounds (length data))"
proof -
  from assms consider "length data = 0" | "length data = 1" by linarith
  then show ?thesis
    by cases (simp_all add: encodeLinear_def rd_def)
qed

lemma encodeLinear_header_write_fault:
  assumes "2 \<le> length data" "length result < 8"
  shows "\<exists>k. encodeLinear data dataSize result = Inl (WriteOutOfBounds k)"
proof -
  have rd0: "rd data 0 = Inr (data ! 0)" and rd1: "rd data 1 = Inr (data ! 1)"
    using assms(1) by (auto simp add: rd_def)
  from encodeLinear_header_fault [OF assms(2)]
  obtain k where "encodeLinear_header result (fixed_point (data ! 0)) (fixed_point (data ! 1)) [0..<4]
      = Inl (WriteOutOfBounds k)"
    by blast
  then have "encodeLinear data dataSize result = Inl (WriteOutOfBounds k)"
    unfolding encodeLinear_def rd0 rd1 by (simp add: Let_def fixed_point_def)
  then show ?thesis ..
qed

section \<open>The header of the linear codec\<close>

lemma byte_mask: "(0xff :: u32) = mask 8"
  by (simp add: mask_eq_exp_minus_1)

lemma byte_mask8: "(0xff :: u8) = mask 8"
  by (simp add: mask_eq_exp_minus_1)

lemma bit_le_byte:
  "bit (push_bit (k * 8) (0xff AND ucast (ucast (drop_bit (k * 8) w AND 0xff) :: u8)) :: u32) j
     \<longleftrightarrow> k * 8 \<le> j \<and> j < k * 8 + 8 \<and> bit (w :: u32) j"
  unfolding byte_mask
  by (auto simp add: bit_simps dest: bit_imp_le_length)

lemma le32_restore:
  "((((0 OR push_bit (0 * 8) (0xff AND ucast (ucast (drop_bit (0 * 8) w AND 0xff) :: u8)))
        OR push_bit (1 * 8) (0xff AND ucast (ucast (drop_bit (1 * 8) w AND 0xff) :: u8)))
        OR push_bit (2 * 8) (0xff AND ucast (ucast (drop_bit (2 * 8) w AND 0xff) :: u8)))
        OR push_bit (3 * 8) (0xff AND ucast (ucast (drop_bit (3 * 8) w AND 0xff) :: u8))) = (w :: u32)"
  (is "?l = w")
proof (rule bit_eqI)
  fix j
  have "j < 32" if "bit w j" using that by (auto dest: bit_imp_le_length)
  then have "bit w j \<longleftrightarrow> (j < 8 \<or> (8 \<le> j \<and> j < 16) \<or> (16 \<le> j \<and> j < 24) \<or> (24 \<le> j \<and> j < 32)) \<and> bit w j"
    by auto
  then show "bit ?l j = bit w j"
    unfolding bit_or_iff bit_le_byte by auto
qed

lemma decodeLinear_header_le32:
  "decodeLinear_header (le32 a @ le32 b @ rest) [0..<4] (0, 0) = Inr (a, b)"
proof -
  have u: "[0..<4] = [0, 1, 2, 3]" by (simp add: upt_conv_Cons)
  show ?thesis
    unfolding u le32_eq using le32_restore [of a] le32_restore [of b]
    by (simp add: rd_def)
qed

section \<open>Sizes of the decoded and encoded arrays\<close>

lemma read_halfbyte_bound:
  assumes "half = 0 \<or> half = 1" "read_halfbyte data di half = Inr (hb, di', half')"
  shows "(half' = 0 \<or> half' = 1) \<and> 2 * di' + nat half' = 2 * di + nat half + 1
           \<and> 2 * di' + nat half' \<le> 2 * length data"
  using assms by (auto simp add: read_halfbyte_def rd_def split: if_splits)

lemma decodeInt_loop_bound:
  assumes "half = 0 \<or> half = 1" "decodeInt_loop data n is (di, half, res) = Inr (di', half', res')"
    and "2 * di + nat half \<le> 2 * length data"
  shows "(half' = 0 \<or> half' = 1) \<and> 2 * di + nat half \<le> 2 * di' + nat half'
           \<and> 2 * di' + nat half' \<le> 2 * length data"
  using assms
proof (induction "is" arbitrary: di half res)
  case Nil
  then show ?case by simp
next
  case (Cons i "is")
  from Cons.prems(2) obtain hb di1 half1 where
    r: "read_halfbyte data di half = Inr (hb, di1, half1)"
    and l: "decodeInt_loop data n is (di1, half1, res OR push_bit ((i - n) * 4) (ucast hb))
              = Inr (di', half', res')"
    by (auto split: sum.splits)
  from read_halfbyte_bound [OF Cons.prems(1) r]
  have h1: "half1 = 0 \<or> half1 = 1" and p1: "2 * di1 + nat half1 = 2 * di + nat half + 1"
    and b1: "2 * di1 + nat half1 \<le> 2 * length data"
    by simp_all
  from Cons.IH [OF h1 l b1] p1 show ?case by simp
qed

lemma decodeInt_bound:
  assumes "half = 0 \<or> half = 1" "decodeInt data di half = Inr (di', half', res)"
  shows "(half' = 0 \<or> half' = 1) \<and> 2 * di + nat half < 2 * di' + nat half'
           \<and> 2 * di' + nat half' \<le> 2 * length data"
proof -
  from assms(2) obtain head di1 half1 where
    r: "read_halfbyte data di half = Inr (head, di1, half1)"
    by (auto simp add: decodeInt_def split: sum.splits)
  from read_halfbyte_bound [OF assms(1) r]
  have h1: "half1 = 0 \<or> half1 = 1" and p1: "2 * di1 + nat half1 = 2 * di + nat half + 1"
    and b1: "2 * di1 + nat half1 \<le> 2 * length data"
    by simp_all
  from assms(2) r consider "di' = di1 \<and> half' = half1"
    | n res0 where "decodeInt_loop data n [n..<8] (di1, half1, res0) = Inr (di', half', res)"
    by (auto simp add: decodeInt_def Let_def split: if_splits)
  then show ?thesis
  proof cases
    case 1
    with h1 p1 b1 show ?thesis by simp
  next
    case 2
    from decodeInt_loop_bound [OF h1 2 b1] p1 show ?thesis by simp
  qed
qed

lemma decodeLinear_loop_count:
  assumes "half = 0 \<or> half = 1"
    and "decodeLinear_loop data (a, b, di, half, result, ri) = Inr (result', ri')"
    and "2 * di + nat half \<le> 2 * length data"
  shows "ri' + (2 * di + nat half) \<le> ri + 2 * length data"
  using assms
proof (induction "2 * length data - (2 * di + nat half)" arbitrary: a b di half result ri
    rule: less_induct)
  case less
  show ?case
  proof (cases "di < length data \<and> \<not> (di = length data - 1 \<and> half = 1 \<and> data ! di AND 0xf \<noteq> 0x8)")
    case False
    with less.prems(2) have "ri' = ri"
      by (subst (asm) decodeLinear_loop.simps) (auto simp add: Let_def split: if_splits)
    with less.prems(3) show ?thesis by simp
  next
    case True
    with less.prems(2) obtain di1 half1 x result1 where
      d: "decodeInt data di half = Inr (di1, half1, x)"
      and l: "decodeLinear_loop data (b, b + (b - a) + x, di1, half1, result1, ri + 1) = Inr (result', ri')"
      by (subst (asm) decodeLinear_loop.simps) (auto simp add: Let_def split: sum.splits if_splits)
    from decodeInt_bound [OF less.prems(1) d]
    have h1: "half1 = 0 \<or> half1 = 1" and p1: "2 * di + nat half < 2 * di1 + nat half1"
      and b1: "2 * di1 + nat half1 \<le> 2 * length data"
      by simp_all
    have "2 * length data - (2 * di1 + nat half1) < 2 * length data - (2 * di + nat half)"
      using p1 b1 by linarith
    from less.hyps [OF this h1 l b1] p1 show ?thesis by linarith
  qed
qed

lemma decodeLinear_header_length:
  assumes "decodeLinear_header data [0..<4] s = Inr t"
  shows "8 \<le> length data"
proof -
  have u: "[0..<4] = [0, 1, 2, 3]" by (simp add: upt_conv_Cons)
  obtain s1 s2 where s: "s = (s1, s2)" by (cases s)
  from assms show ?thesis
    unfolding u s by (auto simp add: rd_def split: sum.splits if_splits)
qed

lemma decodeLinear_count:
  assumes "decodeLinear data result = Inr vs"
  shows "length vs \<le> 2 * length data"
proof -
  from assms obtain ints1 ints2 result2 result3 ri where
    h: "decodeLinear_header data [0..<4] (0, 0) = Inr (ints1, ints2)"
    and l: "decodeLinear_loop data (ints1, ints2, 8, 0, result2, 2) = Inr (result3, ri)"
    and v: "vs = resize result3 ri"
    by (auto simp add: decodeLinear_def split: sum.splits)
  from decodeLinear_header_length [OF h] have len: "8 \<le> length data" .
  have "ri + (2 * 8 + nat 0) \<le> 2 + 2 * length data"
    by (rule decodeLinear_loop_count [OF _ l]) (use len in simp_all)
  with v show ?thesis by (simp add: resize_def)
qed

lemma encode2ByteFloat_loop_ok:
  assumes "n \<le> length data" "i \<le> n" "ri + 2 * (n - i) \<le> length result"
  shows "\<exists>r. encode2ByteFloat_loop data [i..<n] (result, ri) = Inr (r, ri + 2 * (n - i))
           \<and> length r = length result"
  using assms
proof (induction "n - i" arbitrary: i result ri)
  case 0
  then show ?case by simp
next
  case (Suc k)
  then have i: "i < n" by simp
  with Suc.prems have il: "i < length data" by simp
  let ?fp = "double_to_ushort (ln (data ! i) * TWO_BYTE_FLOAT_FIXED_POINT + 0.5)"
  let ?r2 = "result[ri := ucast (?fp AND 0xff), ri + 1 := ucast (drop_bit 8 ?fp)]"
  have upt: "[i..<n] = i # [Suc i..<n]" using i by (simp add: upt_conv_Cons)
  have rdi: "rd data i = Inr (data ! i)" using il by (simp add: rd_def)
  from i Suc.prems(3) have ri: "ri + 1 < length result" by linarith
  have eq: "ri + 2 + 2 * (n - Suc i) = ri + 2 * (n - i)" using i by simp
  have "\<exists>r. encode2ByteFloat_loop data [Suc i..<n] (?r2, ri + 2) = Inr (r, ri + 2 + 2 * (n - Suc i))
           \<and> length r = length ?r2"
  proof (rule Suc.hyps(1))
    show "k = n - Suc i" using Suc.hyps(2) by simp
    show "n \<le> length data" by fact
    show "Suc i \<le> n" using i by simp
    show "ri + 2 + 2 * (n - Suc i) \<le> length ?r2" using Suc.prems(3) i by simp
  qed
  then have ih: "\<exists>r. encode2ByteFloat_loop data [Suc i..<n] (?r2, ri + 2) = Inr (r, ri + 2 * (n - i))
           \<and> length r = length result"
    unfolding eq by simp
  have step: "encode2ByteFloat_loop data [i..<n] (result, ri)
      = encode2ByteFloat_loop data [Suc i..<n] (?r2, ri + 2)"
    unfolding upt using rdi ri by (simp add: Let_def wr_def)
  show ?case unfolding step by (rule ih)
qed

text \<open>
  The size bounds that hold: for \<open>encodeLinear\<close> from two doubles on, for
  \<open>decodeLinear\<close> whenever it returns, for \<open>encode2ByteFloat\<close>, and for
  \<open>decode2ByteFloat\<close> on an even number of bytes.
\<close>

lemma output_size_bounds_in_range:
  "(2 \<le> n \<and> n \<le> length data \<and> 5 * n \<le> length buf \<longrightarrow>
      (\<exists>r cnt. encodeLinear data n buf = Inr (r, cnt) \<and> cnt \<le> 5 * n))
   \<and> (decodeLinear bytes out = Inr vs \<longrightarrow> length vs \<le> 2 * length bytes)
   \<and> (n \<le> length data \<and> 2 * n \<le> length buf \<longrightarrow>
        (\<exists>r. encode2ByteFloat data n buf = Inr (r, 2 * n)))
   \<and> (even (length bytes) \<longrightarrow>
        (\<exists>ws. decode2ByteFloat bytes out = Inr ws \<and> length ws = length bytes div 2))"
proof (intro conjI impI)
  assume a: "2 \<le> n \<and> n \<le> length data \<and> 5 * n \<le> length buf"
  let ?E = "halfbyte_stream (residuals (fixed_point (data ! 0)) (fixed_point (data ! 1))
              (drop 2 (take n data)))"
  from a have n: "8 + (length ?E + 1) div 2 \<le> 5 * n" by (intro encodeLinear_size) simp_all
  with a have cap: "8 + (length ?E + 1) div 2 \<le> length buf" by linarith
  from a have "2 \<le> length data" and "n \<le> length data" by simp_all
  from encodeLinear_ok [OF this cap] n
  show "\<exists>r cnt. encodeLinear data n buf = Inr (r, cnt) \<and> cnt \<le> 5 * n"
    by blast
next
  assume "decodeLinear bytes out = Inr vs"
  then show "length vs \<le> 2 * length bytes" by (rule decodeLinear_count)
next
  assume a: "n \<le> length data \<and> 2 * n \<le> length buf"
  then have "0 + 2 * (n - 0) \<le> length buf" by simp
  from encode2ByteFloat_loop_ok [OF _ _ this, of data] a
  show "\<exists>r. encode2ByteFloat data n buf = Inr (r, 2 * n)"
    by (auto simp add: encode2ByteFloat_def)
next
  assume e: "even (length bytes)"
  from decode2ByteFloat_loop_even [OF _ e order_refl, of 0 0 "resize out (length bytes div 2)"]
  show "\<exists>ws. decode2ByteFloat bytes out = Inr ws \<and> length ws = length bytes div 2"
    by (auto simp add: decode2ByteFloat_def)
qed

section \<open>The linear codec, encoder against decoder\<close>


lemma length_reconstruct [simp]: "length (reconstruct a b xs) = length xs"
  by (induction xs arbitrary: a b) simp_all

lemma nibbles_append: "nibbles (xs @ ys) = nibbles xs @ nibbles ys"
  by (simp add: nibbles_def)

lemma nibbles_Cons: "nibbles (b # bs) = drop_bit 4 b # (b AND 0xf) # nibbles bs"
  by (simp add: nibbles_def)

lemma packed_high: "drop_bit 4 (push_bit 4 a OR (b AND 0xf)) = (a AND 0xf :: u8)"
  unfolding nibble_mask
  by (rule bit_eqI) (auto simp add: bit_simps)

lemma packed_low: "(push_bit 4 a OR (b AND 0xf)) AND 0xf = (b AND 0xf :: u8)"
  unfolding nibble_mask
  by (rule bit_eqI) (auto simp add: bit_simps)

lemma padded_high: "drop_bit 4 (push_bit 4 a) = (a AND 0xf :: u8)"
  unfolding nibble_mask
  by (rule bit_eqI) (auto simp add: bit_simps)

lemma padded_low: "push_bit 4 a AND 0xf = (0 :: u8)"
  unfolding nibble_mask
  by (rule bit_eqI) (auto simp add: bit_simps)

lemma nibbles_pack_pairs:
  "even (length hs) \<Longrightarrow> nibbles (pack_pairs hs) = map (\<lambda>b. b AND 0xf) hs"
proof (induction hs rule: pack_pairs.induct)
  case (1 a b hs)
  then have "nibbles (pack_pairs hs) = map (\<lambda>b. b AND 0xf) hs" by simp
  then show ?case
    by (simp only: pack_pairs.simps nibbles_Cons packed_high packed_low list.map)
qed (simp_all add: nibbles_def)

lemma nibbles_pack_stream:
  "nibbles (pack_stream hs) = map (\<lambda>b. b AND 0xf) hs @ (if odd (length hs) then [0] else [])"
proof (cases "odd (length hs)")
  case False
  then show ?thesis
    by (simp add: pack_stream_def nibbles_pack_pairs)
next
  case True
  then have ne: "hs \<noteq> []" by auto
  with True have e: "even (length (butlast hs))" by simp
  have hs: "hs = butlast hs @ [last hs]" using ne by simp
  have "pack_pairs hs = pack_pairs (butlast hs @ [last hs])" using hs by simp
  also have "\<dots> = pack_pairs (butlast hs)"
    using e by (simp add: pack_pairs_append_even)
  finally have "pack_stream hs = pack_pairs (butlast hs) @ [push_bit 4 (last hs)]"
    using True by (simp add: pack_stream_def odd_iff_mod_2_eq_one)
  then have "nibbles (pack_stream hs)
      = map (\<lambda>b. b AND 0xf) (butlast hs) @ [last hs AND 0xf, 0]"
    using e by (simp only: nibbles_append nibbles_pack_pairs nibbles_Cons padded_high padded_low)
      (simp add: nibbles_def)
  also have "\<dots> = map (\<lambda>b. b AND 0xf) (butlast hs @ [last hs]) @ [0]" by simp
  finally show ?thesis using True hs by simp
qed

lemma encodeInt_single:
  assumes "length (encodeInt x) = 1"
  shows "encodeInt x = [8]"
proof -
  from assms have l: "encodeInt_l x = 8"
    using encodeInt_l_le [of x] by (simp add: length_encodeInt)
  have "x AND mask_f = 0"
  proof (rule ccontr)
    assume "x AND mask_f \<noteq> 0"
    with l one_run_le [of x] show False by (auto simp add: encodeInt_l_def Let_def split: if_splits)
  qed
  with l have "zero_run x = 8" by (simp add: encodeInt_l_def)
  with \<open>x AND mask_f = 0\<close> show ?thesis
    by (simp add: encodeInt_def rest_halfbytes_def)
qed

lemma last_halfbyte_position:
  assumes "half = 0 \<or> half = 1" "2 * length data - (2 * di + nat half) = 1"
  shows "di = length data - 1 \<and> half = 1 \<and> di < length data"
  using assms(1)
proof
  assume "half = 0"
  with assms(2) have "2 * length data - 2 * di = 1" by simp
  then have False by presburger
  then show ?thesis ..
next
  assume h: "half = 1"
  with assms(2) have "2 * length data - (2 * di + 1) = 1" by simp
  then have "di = length data - 1 \<and> di < length data" by linarith
  with h show ?thesis by simp
qed




lemma length_nibbles_le32 [simp]: "length (nibbles (le32 w)) = 8"
  by simp




section \<open>The count codec, encoder against decoder\<close>

lemma decodeCount_loop_stream:
  assumes "half = 0 \<or> half = 1"
    and "drop (2 * di + nat half) (nibbles data) = map (\<lambda>b. b AND 0xf) (halfbyte_stream xs) @ pad"
    and "pad = [] \<or> (\<exists>z. pad = [z] \<and> z \<noteq> 0x8)"
    and "ri + length xs \<le> length result"
  shows "decodeCount_loop data (di, half, result, ri)
       = Inr (take ri result @ map int_to_double xs @ drop (ri + length xs) result, ri + length xs)"
  using assms
proof (induction xs arbitrary: di half result ri)
  case Nil
  let ?p = "2 * di + nat half"
  from Nil.prems(2) have S: "drop ?p (nibbles data) = pad" by simp
  then have len: "2 * length data - ?p = length pad"
    by (metis length_drop length_nibbles)
  from Nil.prems(3) show ?case
  proof
    assume "pad = []"
    with len Nil.prems(1) have "\<not> di < length data" by auto
    then show ?thesis
      by (subst decodeCount_loop.simps) simp
  next
    assume "\<exists>z. pad = [z] \<and> z \<noteq> 0x8"
    then obtain z where z: "pad = [z]" "z \<noteq> 0x8" by blast
    with len have one: "2 * length data - ?p = 1" by simp
    from last_halfbyte_position [OF Nil.prems(1) one]
    have di: "di = length data - 1" "half = 1" "di < length data" by simp_all
    have "nibbles data ! ?p = hd (drop ?p (nibbles data))"
      using one by (intro hd_drop_conv_nth [symmetric]) simp
    with S z have "nibbles data ! ?p = z" by simp
    moreover have "nibbles data ! ?p = data ! di AND 0xf"
      using di nibbles_nth_odd [of di data] by simp
    ultimately have "data ! di AND 0xf \<noteq> 0x8" using z by simp
    with di show ?thesis
      by (subst decodeCount_loop.simps) simp
  qed
next
  case (Cons x xs)
  let ?p = "2 * di + nat half"
  let ?e = "encodeInt x"
  let ?rest = "map (\<lambda>b. b AND 0xf) (halfbyte_stream xs) @ pad"
  let ?v = "int_to_double x"
  from Cons.prems(2) have S: "drop ?p (nibbles data) = map (\<lambda>b. b AND 0xf) ?e @ ?rest" by simp
  then have len: "2 * length data - ?p = length ?e + length ?rest"
    by (metis length_drop length_nibbles length_append length_map)
  have k1: "1 \<le> length ?e" by (simp add: length_encodeInt)
  with len Cons.prems(1) have dil: "di < length data" by auto
  have pre: "take (length ?e) (drop ?p (nibbles data)) = map (\<lambda>b. b AND 0xf) ?e"
    unfolding S by simp
  from decodeInt_inverts_encodeInt [OF Cons.prems(1) pre]
  obtain di' half' where
    d: "decodeInt data di half = Inr (di', half', x)"
    and h': "half' = 0 \<or> half' = 1"
    and p': "2 * di' + nat half' = ?p + length ?e"
    by blast
  have nobreak: "\<not> (di = length data - 1 \<and> half = 1 \<and> data ! di AND 0xf \<noteq> 0x8)"
  proof
    assume br: "di = length data - 1 \<and> half = 1 \<and> data ! di AND 0xf \<noteq> 0x8"
    with dil have "2 * length data - ?p = 1" by auto
    with len k1 have "length ?e = 1" by linarith
    then have e8: "?e = [8]" by (rule encodeInt_single)
    have "nibbles data ! ?p = hd (drop ?p (nibbles data))"
      using dil Cons.prems(1) by (intro hd_drop_conv_nth [symmetric]) auto
    with S e8 have "nibbles data ! ?p = 8" by simp
    moreover have "nibbles data ! ?p = data ! di AND 0xf"
      using br dil nibbles_nth_odd [of di data] by simp
    ultimately have "data ! di AND 0xf = 8" by simp
    with br show False by blast
  qed
  have S': "drop (2 * di' + nat half') (nibbles data) = ?rest"
  proof -
    have "drop (?p + length ?e) (nibbles data) = drop (length ?e) (drop ?p (nibbles data))"
      by (simp add: add.commute)
    also have "\<dots> = ?rest" unfolding S by simp
    finally show ?thesis unfolding p' .
  qed
  from Cons.prems(4) have ri: "ri < length result" by simp
  then have w: "wr result ri ?v = Inr (result[ri := ?v])" by (simp add: wr_def)
  have cap': "ri + 1 + length xs \<le> length (result[ri := ?v])" using Cons.prems(4) by simp
  have step: "decodeCount_loop data (di, half, result, ri)
      = decodeCount_loop data (di', half', result[ri := ?v], ri + 1)"
    using dil nobreak d w by (subst decodeCount_loop.simps) auto
  have "decodeCount_loop data (di', half', result[ri := ?v], ri + 1)
      = Inr (take (ri + 1) (result[ri := ?v]) @ map int_to_double xs
               @ drop (ri + 1 + length xs) (result[ri := ?v]),
             ri + 1 + length xs)"
    by (rule Cons.IH [OF h' S' Cons.prems(3) cap'])
  moreover have "take (ri + 1) (result[ri := ?v]) = take ri result @ [?v]"
    using ri by (simp add: take_Suc_conv_app_nth)
  moreover have "drop (ri + 1 + length xs) (result[ri := ?v]) = drop (ri + length (x # xs)) result"
    by simp
  ultimately show ?case
    unfolding step by simp
qed

lemma decodeCount_of_encoded:
  assumes "length xs \<le> length out"
  shows "decodeCount (pack_stream (halfbyte_stream xs)) out = Inr (map int_to_double xs)"
proof -
  let ?data = "pack_stream (halfbyte_stream xs)"
  let ?pad = "if odd (length (halfbyte_stream xs)) then [0 :: u8] else []"
  have S: "drop (2 * 0 + nat 0) (nibbles ?data) = map (\<lambda>b. b AND 0xf) (halfbyte_stream xs) @ ?pad"
    by (simp add: nibbles_pack_stream)
  have pad: "?pad = [] \<or> (\<exists>z. ?pad = [z] \<and> z \<noteq> 0x8)" by simp
  have cap: "0 + length xs \<le> length out" using assms by simp
  have "decodeCount_loop ?data (0, 0, out, 0)
      = Inr (take 0 out @ map int_to_double xs @ drop (0 + length xs) out, 0 + length xs)"
    by (rule decodeCount_loop_stream [OF _ S pad cap]) simp
  then show ?thesis
    by (simp add: decodeCount_def resize_def)
qed

text \<open>
  The count codec returns what the \<open>int\<close> conversion leaves of each rounded count;
  below \<open>2^31\<close> that is the rounded count itself.
\<close>

lemma count_round_trip:
  assumes "n \<le> length data" "5 * n \<le> length buf" "n \<le> length out"
  shows "\<exists>r cnt. encodeCount data n buf = Inr (r, cnt)
           \<and> decodeCount (take cnt r) out = Inr (map int_to_double (count_ints (take n data)))"
proof -
  let ?xs = "count_ints (take n data)"
  let ?E = "halfbyte_stream ?xs"
  let ?n = "(length ?E + 1) div 2"
  have "length ?E \<le> 9 * n"
    using length_halfbyte_stream_le [of ?xs] assms(1) by (simp add: count_ints_def)
  then have "?n \<le> 5 * n" by linarith
  with assms(2) have cap: "?n \<le> length buf" by linarith
  from encodeCount_ok [OF assms(1) cap]
  have enc: "encodeCount data n buf = Inr (pack_stream ?E @ drop ?n buf, ?n)" .
  have tk: "take ?n (pack_stream ?E @ drop ?n buf) = pack_stream ?E" by simp
  have "length ?xs \<le> length out" using assms(1,3) by (simp add: count_ints_def)
  from decodeCount_of_encoded [OF this] enc tk show ?thesis
    by (intro exI [of _ "pack_stream ?E @ drop ?n buf"] exI [of _ ?n]) simp
qed

lemma count_int_exact:
  assumes "k < 2 ^ 31"
  shows "int_to_double (ucast (double_to_size_t (real k + 0.5))) = real k"
proof -
  have f: "\<lfloor>real k + 1 / 2\<rfloor> = int k" by linarith
  have c1: "double_to_size_t (real k + 0.5) = word_of_nat k"
    by (simp add: double_to_size_t_def trunc_toward_zero_def f)
  from assms have "k < 2 ^ 64" by (rule less_trans) simp
  then have c2: "(ucast (word_of_nat k :: u64) :: u32) = word_of_nat k"
    by (simp add: unsigned_of_nat take_bit_nat_eq_self)
  have g: "sint (word_of_int i :: u32) = i" if "0 \<le> i" "i < 2 ^ 31" for i
    using that by (simp add: int_word_sint)
  have "sint (word_of_int (int k) :: u32) = int k"
    by (rule g) (use assms in simp_all)
  then have c3: "sint (word_of_nat k :: u32) = int k" by simp
  show ?thesis unfolding int_to_double_def c1 c2 c3 by simp
qed

lemma count_round_trip_below_2_31:
  assumes "k < 2 ^ 31" "5 \<le> length buf" "1 \<le> length out"
  shows "\<exists>r cnt. encodeCount [real k] 1 buf = Inr (r, cnt)
           \<and> decodeCount (take cnt r) out = Inr [real k]"
proof -
  have "\<exists>r cnt. encodeCount [real k] 1 buf = Inr (r, cnt)
           \<and> decodeCount (take cnt r) out = Inr (map int_to_double (count_ints (take 1 [real k])))"
    by (rule count_round_trip) (use assms in simp_all)
  then show ?thesis
    using count_int_exact [OF assms(1)] by (simp add: count_ints_def)
qed

section \<open>Claims\<close>

text \<open>
  C1.  Round trip of the integer codec.  For every 32-bit \<open>x\<close> and every reader state
  \<open>(di, half)\<close> with \<open>half\<close> 0 or 1: if the half-byte stream of \<open>data\<close> holds, from
  position \<open>2 * di + half\<close> on, the half bytes written by \<open>encodeInt x\<close> (the low
  four bits of each of its bytes), then \<open>decodeInt\<close> returns \<open>x\<close> and leaves the
  reader state exactly behind these half bytes, ready for the next call.
\<close>

theorem decodeInt_encodeInt:
  assumes half: "half = 0 \<or> half = 1"
    and stream: "take (length (encodeInt x)) (drop (2 * di + nat half) (nibbles data))
                   = map (\<lambda>b. b AND 0xf) (encodeInt x)"
  shows "\<exists>di' half'. decodeInt data di half = Inr (di', half', x)
           \<and> (half' = 0 \<or> half' = 1)
           \<and> 2 * di' + nat half' = 2 * di + nat half + length (encodeInt x)"
  using half stream by (rule decodeInt_inverts_encodeInt)

theorem decodeInt_encodeInt_witness:
  "((1::int) = 0 \<or> (1::int) = 1)
   \<and> take (length (encodeInt 23)) (drop (2 * 0 + nat 1) (nibbles [0x06, 0x71])) = map (\<lambda>b. b AND 0xf) (encodeInt 23)
   \<and> (\<exists>di' half'. decodeInt [0x06, 0x71] 0 1 = Inr (di', half', 23)
           \<and> (half' = 0 \<or> half' = 1)
           \<and> 2 * di' + nat half' = 2 * 0 + nat 1 + length (encodeInt 23))"
proof -
  have e: "encodeInt 23 = [6, 0x17, 1]" by code_simp
  have s: "take (length (encodeInt 23)) (drop (2 * 0 + nat 1) (nibbles [0x06, 0x71])) = map (\<lambda>b. b AND 0xf) (encodeInt 23)"
    unfolding e by (simp add: nibbles_def)
  have h: "(1::int) = 0 \<or> (1::int) = 1" by simp
  from decodeInt_encodeInt [OF h s] h s show ?thesis by blast
qed

text \<open>
  C2.  As stated the claim fails: the source leaves the loop when the last half byte is
  \<^emph>\<open>not\<close> \<open>0x8\<close> and decodes it when it \<^emph>\<open>is\<close> \<open>0x8\<close>.  On the one-byte
  buffer \<open>0x88\<close> \<open>decodeCount\<close> returns two zeros, on \<open>0x80\<close> one; with the
  header of 1.0 and 2.0 in front, \<open>decodeLinear\<close> returns four and three values.
\<close>

theorem last_halfbyte_counterexample:
  "decodeCount [0x88] [7, 7] = Inr [0, 0]
   \<and> decodeCount [0x80] [7, 7] = Inr [0]
   \<and> decodeLinear [0xA0, 0x86, 0x01, 0x00, 0x40, 0x0D, 0x03, 0x00, 0x88] [7, 7, 7, 7] = Inr [1, 2, 3, 4]
   \<and> decodeLinear [0xA0, 0x86, 0x01, 0x00, 0x40, 0x0D, 0x03, 0x00, 0x80] [7, 7, 7, 7] = Inr [1, 2, 3]"
  by code_simp

text \<open>
  C2, amended.  When exactly one half byte remains (\<open>di\<close> is the last index and
  \<open>half = 1\<close>): if the low half of the last byte is not \<open>0x8\<close>, both decoders leave
  the loop and drop it as padding; if it is \<open>0x8\<close>, they decode it as a final value,
  \<open>decodeCount\<close> storing 0 and \<open>decodeLinear\<close> the extrapolated value with
  residual 0.
\<close>

theorem last_halfbyte_rule:
  assumes "Suc di = length data"
  shows "(data ! di AND 0xf \<noteq> 0x8 \<longrightarrow>
            decodeCount_loop data (di, 1, result, ri) = Inr (result, ri)
          \<and> decodeLinear_loop data (ints1, ints2, di, 1, result, ri) = Inr (result, ri))
       \<and> (data ! di AND 0xf = 0x8 \<and> ri < length result \<longrightarrow>
            decodeCount_loop data (di, 1, result, ri) = Inr (result[ri := 0], ri + 1)
          \<and> decodeLinear_loop data (ints1, ints2, di, 1, result, ri)
              = Inr (result[ri := int_to_double (ints2 + (ints2 - ints1)) / 100000], ri + 1))"
proof (intro conjI impI)
  assume "data ! di AND 0xf \<noteq> 0x8"
  with assms show "decodeCount_loop data (di, 1, result, ri) = Inr (result, ri)"
    by (subst decodeCount_loop.simps) auto
  from \<open>data ! di AND 0xf \<noteq> 0x8\<close> assms
  show "decodeLinear_loop data (ints1, ints2, di, 1, result, ri) = Inr (result, ri)"
    by (subst decodeLinear_loop.simps) auto
next
  assume a: "data ! di AND 0xf = 0x8 \<and> ri < length result"
  with assms show "decodeCount_loop data (di, 1, result, ri) = Inr (result[ri := 0], ri + 1)"
    by (subst decodeCount_loop.simps)
      (simp add: decodeInt_last_eight decodeCount_loop_end wr_def int_to_double_def)
  from a assms show "decodeLinear_loop data (ints1, ints2, di, 1, result, ri)
      = Inr (result[ri := int_to_double (ints2 + (ints2 - ints1)) / 100000], ri + 1)"
    by (subst decodeLinear_loop.simps)
      (simp add: decodeInt_last_eight decodeLinear_loop_end wr_def Let_def)
qed

theorem last_halfbyte_rule_witness:
  "Suc 0 = length [0x88 :: u8]
   \<and> decodeCount_loop [0x88] (0, 1, [0, 7], 1) = Inr ([0, 0], 2)
   \<and> decodeLinear_loop [0x88] (1, 3, 0, 1, [7, 7], 1) = Inr ([7, 1 / 20000], 2)
   \<and> decodeCount_loop [0x80] (0, 1, [0, 7], 1) = Inr ([0, 7], 1)
   \<and> decodeLinear_loop [0x80] (1, 3, 0, 1, [7, 7], 1) = Inr ([7, 7], 1)"
proof -
  have h: "Suc 0 = length [0x88 :: u8]" by simp
  have h': "Suc 0 = length [0x80 :: u8]" by simp
  from last_halfbyte_rule [OF h, of "[0, 7]" 1 1 3] last_halfbyte_rule [OF h, of "[7, 7]" 1 1 3]
       last_halfbyte_rule [OF h', of "[0, 7]" 1 1 3] last_halfbyte_rule [OF h', of "[7, 7]" 1 1 3]
  show ?thesis
    by (simp add: int_to_double_def)
qed

text \<open>
  C3.  The count codec at 4294967294, the upper end of the range that the header file
  documents: \<open>encodeCount\<close> writes the single byte \<open>0xfe\<close>, the encoding of the
  \<open>int\<close> -2, and \<open>decodeCount\<close>, whose \<open>count\<close> is a signed \<open>int\<close>, returns -2.
  Below \<open>2^31\<close> the round trip holds (\<open>count_round_trip_below_2_31\<close>).
\<close>

theorem encodeCount_large_count:
  "encodeCount [4294967294] 1 [0, 0, 0, 0, 0] = Inr ([0xfe, 0, 0, 0, 0], 1)
   \<and> decodeCount [0xfe] [0, 0] = Inr [- 2]"
  by code_simp




text \<open>
  C5.  \<open>encodeLinear\<close> stores the fixed-point integers of \<open>data[0]\<close> and
  \<open>data[1]\<close> as they are, each as four bytes, least significant first, in the first
  eight bytes of the result; \<open>decodeLinear\<close> reads the same two integers back from
  them.  On \<open>[1.0, 2.0, 3.0]\<close> the header holds 100000 and 200000, the residual of
  the third value is 0, its encoding is the single half byte \<open>0x8\<close>, and the ninth
  byte is \<open>0x80\<close>.
\<close>

theorem encodeLinear_header_verbatim:
  "(2 \<le> length data \<and> dataSize \<le> length data \<and> 8 \<le> length result
      \<and> 5 * dataSize \<le> length result \<longrightarrow>
      (\<exists>r n. encodeLinear data dataSize result = Inr (r, n) \<and> 8 \<le> n
         \<and> take 8 r = le32 (fixed_point (data ! 0)) @ le32 (fixed_point (data ! 1))
         \<and> decodeLinear_header r [0..<4] (0, 0) = Inr (fixed_point (data ! 0), fixed_point (data ! 1))))
   \<and> encodeLinear [1, 2, 3] 3 (replicate 9 0)
       = Inr ([0xA0, 0x86, 0x01, 0x00, 0x40, 0x0D, 0x03, 0x00, 0x80], 9)
   \<and> fixed_point 1 = 100000 \<and> fixed_point 2 = 200000
   \<and> le32 100000 = [0xA0, 0x86, 0x01, 0x00] \<and> le32 200000 = [0x40, 0x0D, 0x03, 0x00]
   \<and> residuals 100000 200000 [3] = [0]
   \<and> encodeInt 0 = [0x8] \<and> pack_stream [0x8] = [0x80]"
proof -
  have general: "\<exists>r n. encodeLinear data dataSize result = Inr (r, n) \<and> 8 \<le> n
         \<and> take 8 r = le32 (fixed_point (data ! 0)) @ le32 (fixed_point (data ! 1))
         \<and> decodeLinear_header r [0..<4] (0, 0) = Inr (fixed_point (data ! 0), fixed_point (data ! 1))"
    if a: "2 \<le> length data \<and> dataSize \<le> length data \<and> 8 \<le> length result
      \<and> 5 * dataSize \<le> length result"
  proof -
    let ?a = "fixed_point (data ! 0)" and ?b = "fixed_point (data ! 1)"
    let ?E = "halfbyte_stream (residuals ?a ?b (drop 2 (take dataSize data)))"
    let ?n = "8 + (length ?E + 1) div 2"
    let ?r = "le32 ?a @ le32 ?b @ pack_stream ?E @ drop ?n result"
    have cap: "?n \<le> length result"
    proof (cases "2 \<le> dataSize")
      case True
      with a have "?n \<le> 5 * dataSize" by (intro encodeLinear_size) simp_all
      with a show ?thesis by linarith
    next
      case False
      then have "drop 2 (take dataSize data) = []" by simp
      with a show ?thesis by simp
    qed
    from a have "2 \<le> length data" and "dataSize \<le> length data" by simp_all
    from encodeLinear_ok [OF this cap]
    have "encodeLinear data dataSize result = Inr (?r, ?n)" .
    moreover have "take 8 ?r = le32 ?a @ le32 ?b" by simp
    moreover have "decodeLinear_header ?r [0..<4] (0, 0) = Inr (?a, ?b)"
      by (rule decodeLinear_header_le32)
    ultimately show ?thesis by (intro exI [of _ ?r] exI [of _ ?n]) simp
  qed
  have "encodeLinear [1, 2, 3] 3 (replicate 9 0)
       = Inr ([0xA0, 0x86, 0x01, 0x00, 0x40, 0x0D, 0x03, 0x00, 0x80], 9)"
    by code_simp
  moreover have "fixed_point 1 = 100000" and "fixed_point 2 = 200000" by code_simp+
  moreover have "le32 100000 = [0xA0, 0x86, 0x01, 0x00]" and "le32 200000 = [0x40, 0x0D, 0x03, 0x00]"
    by code_simp+
  moreover have "residuals 100000 200000 [3] = [0]" by code_simp
  moreover have "encodeInt 0 = [0x8]" and "pack_stream [0x8] = [0x80]" by code_simp+
  ultimately show ?thesis using general by blast
qed

theorem encodeLinear_header_verbatim_witness:
  "2 \<le> length [1, 2, 3 :: double] \<and> 3 \<le> length [1, 2, 3 :: double]
   \<and> 8 \<le> length (replicate 15 (0 :: u8)) \<and> 5 * 3 \<le> length (replicate 15 (0 :: u8))
   \<and> (\<exists>r n. encodeLinear [1, 2, 3] 3 (replicate 15 0) = Inr (r, n) \<and> 8 \<le> n
         \<and> take 8 r = le32 (fixed_point 1) @ le32 (fixed_point 2)
         \<and> decodeLinear_header r [0..<4] (0, 0) = Inr (fixed_point 1, fixed_point 2))"
proof -
  have h: "2 \<le> length [1, 2, 3 :: double] \<and> 3 \<le> length [1, 2, 3 :: double]
   \<and> 8 \<le> length (replicate 15 (0 :: u8)) \<and> 5 * 3 \<le> length (replicate 15 (0 :: u8))"
    by simp
  from encodeLinear_header_verbatim [of "[1, 2, 3]" 3 "replicate 15 0"] h
  have c: "\<exists>r n. encodeLinear [1, 2, 3] 3 (replicate 15 0) = Inr (r, n) \<and> 8 \<le> n
         \<and> take 8 r = le32 (fixed_point ([1, 2, 3] ! 0)) @ le32 (fixed_point ([1, 2, 3] ! 1))
         \<and> decodeLinear_header r [0..<4] (0, 0)
             = Inr (fixed_point ([1, 2, 3] ! 0), fixed_point ([1, 2, 3] ! 1))"
    by blast
  have e: "[1, 2, 3 :: double] ! 0 = 1" "[1, 2, 3 :: double] ! 1 = 2" by simp_all
  from c h show ?thesis unfolding e by blast
qed

text \<open>
  C6.  The header file promises "maximally dataSize * 5 bytes" for \<open>encodeLinear\<close>.
  With \<open>dataSize = 1\<close> the function still reads \<open>data[0]\<close> and \<open>data[1]\<close> and
  writes the eight header bytes: it returns the count 8, more than \<open>5 * 1\<close>; on a
  result buffer of the promised five bytes it writes \<open>result[5]\<close>, past the end; and
  on an array of one double it reads \<open>data[1]\<close>, past the end.  The sibling
  \<open>encodeCount\<close> keeps the same promise on the same input: it writes one byte.  From
  two doubles on the bound holds (\<open>output_size_bounds_in_range\<close>).
\<close>

theorem encodeLinear_dataSize_one:
  "encodeLinear [1, 2] 1 (replicate 8 0) = Inr ([0xA0, 0x86, 0x01, 0x00, 0x40, 0x0D, 0x03, 0x00], 8)
   \<and> \<not> (8 :: nat) \<le> 5 * 1
   \<and> encodeLinear [1, 2] 1 (replicate 5 0) = Inl (WriteOutOfBounds 5)
   \<and> encodeLinear [1] 1 (replicate 5 0) = Inl (ReadOutOfBounds 1)
   \<and> encodeCount [1] 1 (replicate 5 0) = Inr ([0x71, 0, 0, 0, 0], 1)"
proof -
  have "encodeLinear [1, 2] 1 (replicate 8 0) = Inr ([0xA0, 0x86, 0x01, 0x00, 0x40, 0x0D, 0x03, 0x00], 8)"
    by code_simp
  moreover have "encodeLinear [1, 2] 1 (replicate 5 0) = Inl (WriteOutOfBounds 5)"
    by code_simp
  moreover have "encodeLinear [1] 1 (replicate 5 0) = Inl (ReadOutOfBounds 1)"
    by code_simp
  moreover have "encodeCount [1] 1 (replicate 5 0) = Inr ([0x71, 0, 0, 0, 0], 1)"
    by code_simp
  ultimately show ?thesis by simp
qed

text \<open>
  C7.  The half bytes that \<open>encodeInt\<close> writes are the header and the remaining
  half bytes that the spec describes: the run length \<open>l\<close> of the branch taken is the
  number of leading 0x0 half bytes, or of leading 0xf half bytes capped at 7, or 0.
  Their number is \<open>1 + (8 - l)\<close>, between 1 and 9.  The half bytes of 0 are
  \<open>0x8\<close>, those of 23 are \<open>0x6, 0x7, 0x1\<close>, and those of -1 are \<open>0xf, 0xf\<close>.
\<close>

theorem encodeInt_halfbyte_count:
  "map (\<lambda>b. b AND 0xf) (encodeInt x) = spec_encodeInt x
   \<and> encodeInt_l x = spec_l x
   \<and> length (encodeInt x) = 1 + (8 - spec_l x)
   \<and> 1 \<le> length (encodeInt x) \<and> length (encodeInt x) \<le> 9
   \<and> map (\<lambda>b. b AND 0xf) (encodeInt 0) = [0x8]
   \<and> map (\<lambda>b. b AND 0xf) (encodeInt 23) = [0x6, 0x7, 0x1]
   \<and> map (\<lambda>b. b AND 0xf) (encodeInt (- 1)) = [0xf, 0xf]"
proof -
  have "encodeInt 0 = [8]" by code_simp
  moreover have "encodeInt 23 = [6, 0x17, 1]" by code_simp
  moreover have "encodeInt (- 1) = [0xf, 0xff]" by code_simp
  moreover have "length (encodeInt x) = 1 + (8 - spec_l x)"
    using length_encodeInt [of x] by (simp add: encodeInt_l_spec)
  ultimately show ?thesis
    using encodeInt_l_le [of x] encodeInt_spec [of x] encodeInt_l_spec [of x] by simp
qed

text \<open>
  C8.  Truncated input.  The byte \<open>0x00\<close> announces eight half bytes that are not
  there; a three-byte buffer is shorter than the header of \<open>decodeLinear\<close>; a ninth
  byte \<open>0x61\<close> announces two half bytes and holds one.  Each decode reads past the end
  of \<open>data\<close> with the unchecked \<open>operator[]\<close>: the behaviour is undefined, no
  exception is thrown and the \<open>catch\<close> handler is not entered.
\<close>

theorem decode_truncated_input:
  "decodeCount [0x00] [0, 0] = Inl (ReadOutOfBounds 1)
   \<and> decodeLinear [0xA0, 0x86, 0x01] [0, 0, 0, 0, 0, 0] = Inl (ReadOutOfBounds 4)
   \<and> decodeLinear [0xA0, 0x86, 0x01, 0x00, 0x40, 0x0D, 0x03, 0x00, 0x61] (replicate 18 0)
       = Inl (ReadOutOfBounds 9)"
  by code_simp

text \<open>
  C9.  \<open>encodeLinear\<close> reads \<open>data[0]\<close> and \<open>data[1]\<close> and writes the eight
  header bytes before its loop, whatever \<open>dataSize\<close> is: on an array of fewer than
  two doubles the read is out of bounds, on a result buffer of fewer than eight bytes
  the header write is, and with \<open>dataSize\<close> 0 or 1 the call returns the header and
  the count 8.  With \<open>2 \<le> dataSize\<close>, \<open>dataSize\<close> doubles behind \<open>data\<close> and
  \<open>5 * dataSize\<close> bytes behind \<open>result\<close>, no access is out of bounds, the count
  \<open>n\<close> is at most \<open>5 * dataSize\<close> and the buffer is unchanged from \<open>n\<close> on.
\<close>

theorem encodeLinear_precondition:
  "(length data < 2 \<longrightarrow> encodeLinear data dataSize result = Inl (ReadOutOfBounds (length data)))
   \<and> (2 \<le> length data \<and> length result < 8 \<longrightarrow>
        (\<exists>k. encodeLinear data dataSize result = Inl (WriteOutOfBounds k)))
   \<and> (2 \<le> length data \<and> dataSize < 2 \<and> 8 \<le> length result \<longrightarrow>
        encodeLinear data dataSize result
          = Inr (le32 (fixed_point (data ! 0)) @ le32 (fixed_point (data ! 1)) @ drop 8 result, 8))
   \<and> (2 \<le> dataSize \<and> dataSize \<le> length data \<and> 5 * dataSize \<le> length result \<longrightarrow>
        (\<exists>r n. encodeLinear data dataSize result = Inr (r, n)
           \<and> 8 \<le> n \<and> n \<le> 5 * dataSize
           \<and> length r = length result \<and> drop n r = drop n result))"
proof (intro conjI impI)
  assume "length data < 2"
  then show "encodeLinear data dataSize result = Inl (ReadOutOfBounds (length data))"
    by (rule encodeLinear_read_fault)
next
  assume "2 \<le> length data \<and> length result < 8"
  then show "\<exists>k. encodeLinear data dataSize result = Inl (WriteOutOfBounds k)"
    using encodeLinear_header_write_fault by blast
next
  assume a: "2 \<le> length data \<and> dataSize < 2 \<and> 8 \<le> length result"
  then have e: "drop 2 (take dataSize data) = []" by simp
  from a have "dataSize \<le> length data" by simp
  from encodeLinear_ok [OF _ this, of result] a
  show "encodeLinear data dataSize result
          = Inr (le32 (fixed_point (data ! 0)) @ le32 (fixed_point (data ! 1)) @ drop 8 result, 8)"
    unfolding e by (simp add: pack_stream_def)
next
  assume a: "2 \<le> dataSize \<and> dataSize \<le> length data \<and> 5 * dataSize \<le> length result"
  let ?E = "halfbyte_stream (residuals (fixed_point (data ! 0)) (fixed_point (data ! 1))
              (drop 2 (take dataSize data)))"
  let ?n = "8 + (length ?E + 1) div 2"
  let ?r = "le32 (fixed_point (data ! 0)) @ le32 (fixed_point (data ! 1)) @ pack_stream ?E @ drop ?n result"
  from a have n: "?n \<le> 5 * dataSize" by (intro encodeLinear_size) simp_all
  with a have cap: "?n \<le> length result" by linarith
  from a have "2 \<le> length data" and "dataSize \<le> length data" by simp_all
  from encodeLinear_ok [OF this cap]
  have "encodeLinear data dataSize result = Inr (?r, ?n)" .
  moreover have "length ?r = length result" using cap by simp
  moreover have "drop ?n ?r = drop ?n result"
    by simp
  ultimately show "\<exists>r n. encodeLinear data dataSize result = Inr (r, n)
           \<and> 8 \<le> n \<and> n \<le> 5 * dataSize
           \<and> length r = length result \<and> drop n r = drop n result"
    using n by (intro exI [of _ ?r] exI [of _ ?n]) simp
qed

theorem encodeLinear_precondition_witness:
  "length [1 :: double] < 2
   \<and> encodeLinear [1] 1 (replicate 5 0) = Inl (ReadOutOfBounds 1)
   \<and> encodeLinear [] 0 [] = Inl (ReadOutOfBounds 0)
   \<and> 2 \<le> length [1, 2 :: double] \<and> length (replicate 5 (0 :: u8)) < 8
   \<and> (\<exists>k. encodeLinear [1, 2] 1 (replicate 5 0) = Inl (WriteOutOfBounds k))
   \<and> (1 :: nat) < 2 \<and> 8 \<le> length (replicate 8 (0 :: u8))
   \<and> encodeLinear [1, 2] 1 (replicate 8 0) = Inr (le32 (fixed_point 1) @ le32 (fixed_point 2), 8)
   \<and> (2 :: nat) \<le> 3 \<and> 3 \<le> length [1, 2, 3 :: double] \<and> 5 * 3 \<le> length (replicate 15 (0 :: u8))
   \<and> (\<exists>r n. encodeLinear [1, 2, 3] 3 (replicate 15 0) = Inr (r, n) \<and> 8 \<le> n \<and> n \<le> 5 * 3
          \<and> length r = 15 \<and> drop n r = drop n (replicate 15 0))"
proof -
  have h1: "length [1 :: double] < 2" by simp
  have h0: "length ([] :: double list) < 2" by simp
  have h2: "2 \<le> length [1, 2 :: double] \<and> length (replicate 5 (0 :: u8)) < 8" by simp
  have h3: "2 \<le> length [1, 2 :: double] \<and> (1 :: nat) < 2 \<and> 8 \<le> length (replicate 8 (0 :: u8))" by simp
  have h4: "(2 :: nat) \<le> 3 \<and> 3 \<le> length [1, 2, 3 :: double] \<and> 5 * 3 \<le> length (replicate 15 (0 :: u8))"
    by simp
  from encodeLinear_precondition [of "[1]" 1 "replicate 5 0"] h1
  have c1: "encodeLinear [1] 1 (replicate 5 0) = Inl (ReadOutOfBounds 1)" by simp
  from encodeLinear_precondition [of "[]" 0 "[]"] h0
  have c0: "encodeLinear [] 0 [] = Inl (ReadOutOfBounds 0)" by simp
  from encodeLinear_precondition [of "[1, 2]" 1 "replicate 5 0"] h2
  have c2: "\<exists>k. encodeLinear [1, 2] 1 (replicate 5 0) = Inl (WriteOutOfBounds k)" by blast
  from encodeLinear_precondition [of "[1, 2]" 1 "replicate 8 0"] h3
  have c3: "encodeLinear [1, 2] 1 (replicate 8 0) = Inr (le32 (fixed_point 1) @ le32 (fixed_point 2), 8)"
    by simp
  from encodeLinear_precondition [of "[1, 2, 3]" 3 "replicate 15 0"] h4
  have c4: "\<exists>r n. encodeLinear [1, 2, 3] 3 (replicate 15 0) = Inr (r, n) \<and> 8 \<le> n \<and> n \<le> 5 * 3
          \<and> length r = 15 \<and> drop n r = drop n (replicate 15 0)"
    by simp
  from h1 h2 h3 h4 c0 c1 c2 c3 c4 show ?thesis by blast
qed

text \<open>
  C10.  \<open>decode2ByteFloat\<close> walks the input in steps of two and reads \<open>data[i]\<close> and
  \<open>data[i+1]\<close>.  On an input of even length every access is in bounds and the result
  has \<open>size / 2\<close> elements, each the value of its pair of bytes.  On an input of odd
  length the last iteration reads \<open>data[dataSize]\<close>, one past the end; and were that
  byte readable (the array continues with some \<open>b\<close>), the same iteration writes
  \<open>result[dataSize / 2]\<close>, one past the resized result.
\<close>

theorem decode2ByteFloat_even_precondition:
  "(even (length data) \<longrightarrow>
      (\<exists>r. decode2ByteFloat data result = Inr r \<and> length r = length data div 2
         \<and> (\<forall>k<length data div 2. r ! k = two_byte_value data k)))
   \<and> (odd (length data) \<longrightarrow>
        decode2ByteFloat data result = Inl (ReadOutOfBounds (length data))
      \<and> decode2ByteFloat_loop (data @ [b]) (length data) 0 (resize result (length data div 2)) 0
          = Inl (WriteOutOfBounds (length data div 2)))"
proof (intro conjI impI)
  assume e: "even (length data)"
  from decode2ByteFloat_loop_even [OF _ e order_refl, of 0 0 "resize result (length data div 2)"]
  show "\<exists>r. decode2ByteFloat data result = Inr r \<and> length r = length data div 2
         \<and> (\<forall>k<length data div 2. r ! k = two_byte_value data k)"
    by (auto simp add: decode2ByteFloat_def)
next
  assume o: "odd (length data)"
  then have pos: "0 < length data" by (cases data) simp_all
  from decode2ByteFloat_loop_odd_read [OF _ o refl pos, of 0 "resize result (length data div 2)"]
  show "decode2ByteFloat data result = Inl (ReadOutOfBounds (length data))"
    by (simp add: decode2ByteFloat_def)
  from decode2ByteFloat_loop_odd_write [OF _ o _ pos, of "data @ [b]" 0 "resize result (length data div 2)"]
  show "decode2ByteFloat_loop (data @ [b]) (length data) 0 (resize result (length data div 2)) 0
          = Inl (WriteOutOfBounds (length data div 2))"
    by simp
qed

theorem decode2ByteFloat_even_precondition_witness:
  "even (length [0xb8, 0x0b :: u8])
   \<and> decode2ByteFloat [0xb8, 0x0b] [] = Inr [exp 1]
   \<and> odd (length [0xb8, 0x0b, 0x07 :: u8])
   \<and> decode2ByteFloat [0xb8, 0x0b, 0x07] [] = Inl (ReadOutOfBounds 3)
   \<and> decode2ByteFloat_loop ([0xb8, 0x0b, 0x07] @ [0]) 3 0 (resize [] 1) 0 = Inl (WriteOutOfBounds 1)"
proof -
  have e: "even (length [0xb8, 0x0b :: u8])" by simp
  have o: "odd (length [0xb8, 0x0b, 0x07 :: u8])" by simp
  from decode2ByteFloat_even_precondition [of "[0xb8, 0x0b]" "[]"] e
  obtain r where r: "decode2ByteFloat [0xb8, 0x0b] [] = Inr r" "length r = 1" "r ! 0 = two_byte_value [0xb8, 0x0b] 0"
    by auto
  have "two_byte_value [0xb8, 0x0b] 0 = exp 1"
    by (simp add: two_byte_value_def TWO_BYTE_FLOAT_FIXED_POINT_def)
  with r have r1: "r = [exp 1]" by (cases r) simp_all
  from decode2ByteFloat_even_precondition [of "[0xb8, 0x0b, 0x07]" "[]" 0] o
  have "decode2ByteFloat [0xb8, 0x0b, 0x07] [] = Inl (ReadOutOfBounds (length [0xb8, 0x0b, 0x07 :: u8]))"
    and "decode2ByteFloat_loop ([0xb8, 0x0b, 0x07] @ [0]) (length [0xb8, 0x0b, 0x07 :: u8]) 0
           (resize [] (length [0xb8, 0x0b, 0x07 :: u8] div 2)) 0
         = Inl (WriteOutOfBounds (length [0xb8, 0x0b, 0x07 :: u8] div 2))"
    by blast+
  with r r1 e o show ?thesis by (simp add: numeral_3_eq_3)
qed

end
